theory Spec2Isabelle
  imports Main "HOL-Library.Word"
begin

unbundle bit_operations_syntax

section \<open>Data model\<close>

text \<open>
  The board is the C array \<^verbatim>\<open>uint8_t board[15][16]\<close>, read as \<^verbatim>\<open>b->board[x][y]\<close>.
  It is modelled as a total function from the coordinate pair to the byte stored there.
  Every read of the functions below stays inside the array when \<open>M \<le> 15\<close> and
  \<open>N \<le> 15\<close>, which is the range the program supports; on that range the function
  model and the array agree.  The globals \<^verbatim>\<open>M\<close>, \<^verbatim>\<open>N\<close>, \<^verbatim>\<open>K\<close> are passed
  as explicit arguments.  Coordinates and counters have the C type \<^verbatim>\<open>bloc_t\<close>
  (a signed integer of at least 32 bits); none of them leaves the range of a few hundred,
  so they are modelled as \<open>int\<close>.
\<close>

type_synonym player_t = "8 word"
type_synonym bloc_t = int
type_synonym pos = "int \<times> int"
type_synonym board_t = "pos \<Rightarrow> 8 word"

definition PLAYER_NONE :: player_t where [simp]: "PLAYER_NONE = 0"
definition PLAYER_US :: player_t where [simp]: "PLAYER_US = 1"
definition PLAYER_THEM :: player_t where [simp]: "PLAYER_THEM = 2"
definition PLAYER_TIE :: player_t where [simp]: "PLAYER_TIE = 4"

definition EVAL_MAX :: int where [simp]: "EVAL_MAX = 7230"
definition EVAL_MIN :: int where [simp]: "EVAL_MIN = - 7230"
definition EVAL_INF :: int where [simp]: "EVAL_INF = 10000"
definition EVAL_N_INF :: int where [simp]: "EVAL_N_INF = - 10000"

section \<open>Win detector\<close>

text \<open>
  The body shared by the inner loops of \<^verbatim>\<open>checkWin\<close>: two running counts along one
  line, each reset by a cell without that player's bit; the first count to reach \<open>K\<close>
  returns from the whole function.  The line is the list of cells the inner loop
  visits, in order.  \<open>None\<close> means the inner loop ran to its end.
\<close>

fun countRun :: "int \<Rightarrow> board_t \<Rightarrow> pos list \<Rightarrow> int \<Rightarrow> int \<Rightarrow> player_t option" where
  "countRun K b [] count1 count2 = None"
| "countRun K b (p # ps) count1 count2 =
     (let c1 = (if b p AND PLAYER_US \<noteq> 0 then count1 + 1 else 0);
          c2 = (if b p AND PLAYER_THEM \<noteq> 0 then count2 + 1 else 0)
      in if c1 \<ge> K then Some PLAYER_US
         else if c2 \<ge> K then Some PLAYER_THEM
         else countRun K b ps c1 c2)"

text \<open>The inner loop of the last block also records whether it saw an empty cell.\<close>

fun countRunE :: "int \<Rightarrow> board_t \<Rightarrow> pos list \<Rightarrow> int \<Rightarrow> int \<Rightarrow> bool \<Rightarrow> player_t + bool" where
  "countRunE K b [] count1 count2 hasEmpty = Inr hasEmpty"
| "countRunE K b (p # ps) count1 count2 hasEmpty =
     (let h = (if b p = 0 then True else hasEmpty);
          c1 = (if b p AND PLAYER_US \<noteq> 0 then count1 + 1 else 0);
          c2 = (if b p AND PLAYER_THEM \<noteq> 0 then count2 + 1 else 0)
      in if c1 \<ge> K then Inl PLAYER_US
         else if c2 \<ge> K then Inl PLAYER_THEM
         else countRunE K b ps c1 c2 h)"

text \<open>The outer loops: every line starts with both counts at zero.\<close>

fun scanLines :: "int \<Rightarrow> board_t \<Rightarrow> pos list list \<Rightarrow> player_t option" where
  "scanLines K b [] = None"
| "scanLines K b (l # ls) =
     (case countRun K b l 0 0 of Some w \<Rightarrow> Some w | None \<Rightarrow> scanLines K b ls)"

fun scanLinesE :: "int \<Rightarrow> board_t \<Rightarrow> pos list list \<Rightarrow> bool \<Rightarrow> player_t + bool" where
  "scanLinesE K b [] hasEmpty = Inr hasEmpty"
| "scanLinesE K b (l # ls) hasEmpty =
     (case countRunE K b l 0 0 hasEmpty of Inl w \<Rightarrow> Inl w | Inr h \<Rightarrow> scanLinesE K b ls h)"

text \<open>The cells each loop nest visits, line by line, with the index arithmetic of the source.\<close>

definition rowLines :: "int \<Rightarrow> int \<Rightarrow> pos list list" where
  "rowLines M N = map (\<lambda>y. map (\<lambda>x. (x, y)) [0..M - 1]) [0..N - 1]"

definition colLines :: "int \<Rightarrow> int \<Rightarrow> pos list list" where
  "colLines M N = map (\<lambda>x. map (\<lambda>y. (x, y)) [0..N - 1]) [0..M - 1]"

definition downLeftLine :: "int \<Rightarrow> int \<Rightarrow> int \<Rightarrow> pos list" where
  "downLeftLine M N i =
     (let j = (if i < M then 0 else i - M + 1);
          z = (if i < N then i + 1 else N)
      in map (\<lambda>y. (i - y, y)) [j..z - 1])"

definition downLeftLines :: "int \<Rightarrow> int \<Rightarrow> pos list list" where
  "downLeftLines M N = map (downLeftLine M N) [0..M + N - 1 - 1]"

definition downRightLine :: "int \<Rightarrow> int \<Rightarrow> int \<Rightarrow> pos list" where
  "downRightLine M N i =
     (let j = (if i < N then N - i - 1 else 0);
          z = (if i < M then N else M + N - i - 1)
      in map (\<lambda>y. (i + y - N + 1, y)) [j..z - 1])"

definition downRightLines :: "int \<Rightarrow> int \<Rightarrow> pos list list" where
  "downRightLines M N = map (downRightLine M N) [0..M + N - 1 - 1]"

text \<open>\<^verbatim>\<open>checkWin\<close> of \<^verbatim>\<open>board.c\<close>: rows, columns, the two diagonal families, then tie or none.\<close>

definition checkWin :: "int \<Rightarrow> int \<Rightarrow> int \<Rightarrow> board_t \<Rightarrow> player_t" where
  "checkWin M N K b =
     (case scanLines K b (rowLines M N) of Some w \<Rightarrow> w | None \<Rightarrow>
      (case scanLines K b (colLines M N) of Some w \<Rightarrow> w | None \<Rightarrow>
       (case scanLines K b (downLeftLines M N) of Some w \<Rightarrow> w | None \<Rightarrow>
        (case scanLinesE K b (downRightLines M N) False of
           Inl w \<Rightarrow> w
         | Inr hasEmpty \<Rightarrow> if hasEmpty then PLAYER_NONE else PLAYER_TIE))))"

text \<open>
  The earlier \<^verbatim>\<open>checkWin\<close> (the prototype file): the same four blocks, but its column
  block runs \<^verbatim>\<open>x\<close> below \<^verbatim>\<open>N\<close> and \<^verbatim>\<open>y\<close> below \<^verbatim>\<open>M\<close>.
\<close>

definition protoColLines :: "int \<Rightarrow> int \<Rightarrow> pos list list" where
  "protoColLines M N = map (\<lambda>x. map (\<lambda>y. (x, y)) [0..M - 1]) [0..N - 1]"

definition protoCheckWin :: "int \<Rightarrow> int \<Rightarrow> int \<Rightarrow> board_t \<Rightarrow> player_t" where
  "protoCheckWin M N K b =
     (case scanLines K b (rowLines M N) of Some w \<Rightarrow> w | None \<Rightarrow>
      (case scanLines K b (protoColLines M N) of Some w \<Rightarrow> w | None \<Rightarrow>
       (case scanLines K b (downLeftLines M N) of Some w \<Rightarrow> w | None \<Rightarrow>
        (case scanLinesE K b (downRightLines M N) False of
           Inl w \<Rightarrow> w
         | Inr hasEmpty \<Rightarrow> if hasEmpty then PLAYER_NONE else PLAYER_TIE))))"

text \<open>A board given by the list of its stones; every other cell is empty.\<close>

definition boardOf :: "(pos \<times> player_t) list \<Rightarrow> board_t" where
  "boardOf stones = (\<lambda>p. case map_of stones p of None \<Rightarrow> PLAYER_NONE | Some c \<Rightarrow> c)"


section \<open>Move enumerator\<close>

text \<open>
  \<^verbatim>\<open>nextPosition\<close>: the cursor \<open>(x, y)\<close> is passed in and the new cursor is returned;
  \<open>None\<close> is the return value 0, which leaves the cursor as it was.  \<open>scanEmpty\<close> is
  the \<^verbatim>\<open>do ... while(newy < N)\<close> loop.
\<close>

function scanEmpty :: "int \<Rightarrow> int \<Rightarrow> board_t \<Rightarrow> int \<Rightarrow> int \<Rightarrow> pos option" where
  "scanEmpty M N b newx newy =
     (if b (newx, newy) = PLAYER_NONE then Some (newx, newy)
      else if newx + 1 \<ge> M
           then (if newy + 1 < N then scanEmpty M N b 0 (newy + 1) else None)
           else (if newy < N then scanEmpty M N b (newx + 1) newy else None))"
  by pat_completeness auto
termination
  by (relation "measures [\<lambda>(M, N, b, x, y). nat (N - y), \<lambda>(M, N, b, x, y). nat (M - x)]") auto

declare scanEmpty.simps [simp del]

text \<open>The part of \<^verbatim>\<open>nextPosition\<close> before the loop: the sentinel \<open>x = -1\<close> starts at
  the first cell, any other cursor is advanced by one cell.\<close>

definition nextPosition :: "int \<Rightarrow> int \<Rightarrow> board_t \<Rightarrow> pos \<Rightarrow> pos option" where
  "nextPosition M N b c =
     (case c of (x, y) \<Rightarrow>
        if x = - 1 then scanEmpty M N b 0 0
        else if x + 1 \<ge> M
             then (if y + 1 \<ge> N then None else scanEmpty M N b 0 (y + 1))
             else scanEmpty M N b (x + 1) y)"

lemma scanEmpty_progress:
  "scanEmpty M N b sx sy = Some (px, py) \<Longrightarrow>
     (px = sx \<and> py = sy) \<or> (py = sy \<and> sx < px \<and> px < M) \<or> (sy < py \<and> py < N \<and> 0 \<le> px)"
proof (induction M N b sx sy rule: scanEmpty.induct)
  case (1 M N b newx newy)
  show ?case
  proof (cases "b (newx, newy) = PLAYER_NONE")
    case True
    with "1.prems" show ?thesis by (simp add: scanEmpty.simps[of M N b newx newy])
  next
    case False
    note ne = False
    show ?thesis
    proof (cases "newx + 1 \<ge> M")
      case True
      with ne "1.prems" have lt: "newy + 1 < N" and r: "scanEmpty M N b 0 (newy + 1) = Some (px, py)"
        by (auto simp: scanEmpty.simps[of M N b newx newy] split: if_splits)
      from "1.IH"(1)[OF ne True lt r] lt show ?thesis by auto
    next
      case False
      with ne "1.prems" have lt: "newy < N" and r: "scanEmpty M N b (newx + 1) newy = Some (px, py)"
        by (auto simp: scanEmpty.simps[of M N b newx newy] split: if_splits)
      from "1.IH"(2)[OF ne False lt r] False lt show ?thesis by auto
    qed
  qed
qed


lemma nextPosition_progress:
  assumes "nextPosition M N b (x, y) = Some (px, py)"
  shows "(x = - 1 \<and> 0 \<le> px) \<or> (x \<noteq> - 1 \<and> py = y \<and> x < px \<and> px < M) \<or> (x \<noteq> - 1 \<and> y < py \<and> py < N \<and> 0 \<le> px)"
proof (cases "x = - 1")
  case True
  with assms have "scanEmpty M N b 0 0 = Some (px, py)" by (simp add: nextPosition_def)
  from scanEmpty_progress[OF this] True show ?thesis by auto
next
  case False
  note nx = False
  show ?thesis
  proof (cases "x + 1 \<ge> M")
    case True
    with nx assms have lt: "y + 1 < N" and r: "scanEmpty M N b 0 (y + 1) = Some (px, py)"
      by (auto simp: nextPosition_def split: if_splits)
    from scanEmpty_progress[OF r] lt nx show ?thesis by auto
  next
    case False
    with nx assms have r: "scanEmpty M N b (x + 1) y = Some (px, py)"
      by (auto simp: nextPosition_def split: if_splits)
    from scanEmpty_progress[OF r] False nx show ?thesis by auto
  qed
qed

text \<open>
  Every loop of the program over the empty cells has the form
  \<^verbatim>\<open>*x = -1; while(nextPosition(b, x, y)) { ... }\<close> and changes neither the board nor
  the cursor in its body.  \<open>enumFrom\<close> is the sequence of cursors such a loop sees:
  \<^verbatim>\<open>nextPosition\<close> called again and again until it returns 0.
\<close>

function enumFrom :: "int \<Rightarrow> int \<Rightarrow> board_t \<Rightarrow> pos \<Rightarrow> pos list" where
  "enumFrom M N b c =
     (case nextPosition M N b c of None \<Rightarrow> [] | Some p \<Rightarrow> p # enumFrom M N b p)"
  by pat_completeness auto
termination
proof (relation "measures [\<lambda>(M, N, b, x, y). if x = - 1 then 2 else if x < - 1 then 3 else 0,
                           \<lambda>(M, N, b, x, y). nat (N - y), \<lambda>(M, N, b, x, y). nat (M - x)]", goal_cases)
  case 1
  show ?case by simp
next
  case (2 M N b c p)
  obtain x y where c: "c = (x, y)" by (cases c)
  obtain px py where p: "p = (px, py)" by (cases p)
  from 2 c p have "nextPosition M N b (x, y) = Some (px, py)" by simp
  from nextPosition_progress[OF this] show ?case
    unfolding c p by auto
qed

declare enumFrom.simps [simp del]


text \<open>The cells of the active region in scan order: \<open>x\<close> runs fastest, then \<open>y\<close>.\<close>

definition rowCells :: "int \<Rightarrow> int \<Rightarrow> pos list" where
  "rowCells M y = map (\<lambda>x. (x, y)) [0..M - 1]"

definition allCells :: "int \<Rightarrow> int \<Rightarrow> pos list" where
  "allCells M N = concat (map (rowCells M) [0..N - 1])"

definition cellsFrom :: "int \<Rightarrow> int \<Rightarrow> int \<Rightarrow> int \<Rightarrow> pos list" where
  "cellsFrom M N sx sy = map (\<lambda>x. (x, sy)) [sx..M - 1] @ concat (map (rowCells M) [sy + 1..N - 1])"

lemma cellsFrom_inner: "sx + 1 < M \<Longrightarrow> cellsFrom M N sx sy = (sx, sy) # cellsFrom M N (sx + 1) sy"
  by (simp add: cellsFrom_def upto_rec1[of sx])

lemma cellsFrom_wrap:
  "sx < M \<Longrightarrow> M \<le> sx + 1 \<Longrightarrow> sy + 1 < N \<Longrightarrow> cellsFrom M N sx sy = (sx, sy) # cellsFrom M N 0 (sy + 1)"
  by (simp add: cellsFrom_def rowCells_def upto_rec1[of sx] upto_rec1[of "sy + 1"])

lemma cellsFrom_last:
  "sx < M \<Longrightarrow> M \<le> sx + 1 \<Longrightarrow> N \<le> sy + 1 \<Longrightarrow> cellsFrom M N sx sy = [(sx, sy)]"
  by (simp add: cellsFrom_def upto_rec1[of sx])

lemma allCells_cellsFrom: "1 \<le> N \<Longrightarrow> allCells M N = cellsFrom M N 0 0"
  by (simp add: allCells_def cellsFrom_def rowCells_def upto_rec1[of 0 "N - 1"])

definition enumScan :: "int \<Rightarrow> int \<Rightarrow> board_t \<Rightarrow> int \<Rightarrow> int \<Rightarrow> pos list" where
  "enumScan M N b sx sy =
     (case scanEmpty M N b sx sy of None \<Rightarrow> [] | Some p \<Rightarrow> p # enumFrom M N b p)"

lemma enumScan_filter:
  "0 \<le> sx \<Longrightarrow> sx < M \<Longrightarrow> 0 \<le> sy \<Longrightarrow> sy < N \<Longrightarrow>
     enumScan M N b sx sy = filter (\<lambda>p. b p = PLAYER_NONE) (cellsFrom M N sx sy)"
proof (induction "length (cellsFrom M N sx sy)" arbitrary: sx sy rule: less_induct)
  case less
  note reg = less.prems
  let ?E = "\<lambda>p. b p = PLAYER_NONE"
  consider (inner) "sx + 1 < M" | (wrap) "M \<le> sx + 1" "sy + 1 < N" | (last) "M \<le> sx + 1" "N \<le> sy + 1"
    by linarith
  then show ?case
  proof cases
    case inner
    have cf: "cellsFrom M N sx sy = (sx, sy) # cellsFrom M N (sx + 1) sy"
      using inner by (rule cellsFrom_inner)
    have IH: "enumScan M N b (sx + 1) sy = filter ?E (cellsFrom M N (sx + 1) sy)"
      using less.hyps[of "sx + 1" sy] cf reg inner by simp
    show ?thesis
    proof (cases "b (sx, sy) = PLAYER_NONE")
      case True
      have "scanEmpty M N b sx sy = Some (sx, sy)"
        using True by (simp add: scanEmpty.simps[of M N b sx sy])
      moreover have "nextPosition M N b (sx, sy) = scanEmpty M N b (sx + 1) sy"
        using inner reg by (simp add: nextPosition_def)
      ultimately have "enumScan M N b sx sy = (sx, sy) # enumScan M N b (sx + 1) sy"
        by (simp add: enumScan_def enumFrom.simps[of M N b "(sx, sy)"])
      with IH cf True show ?thesis by simp
    next
      case False
      have "scanEmpty M N b sx sy = scanEmpty M N b (sx + 1) sy"
        using False inner reg by (simp add: scanEmpty.simps[of M N b sx sy])
      then have "enumScan M N b sx sy = enumScan M N b (sx + 1) sy"
        by (simp add: enumScan_def)
      with IH cf False show ?thesis by simp
    qed
  next
    case wrap
    have cf: "cellsFrom M N sx sy = (sx, sy) # cellsFrom M N 0 (sy + 1)"
      using reg wrap by (simp add: cellsFrom_wrap)
    have IH: "enumScan M N b 0 (sy + 1) = filter ?E (cellsFrom M N 0 (sy + 1))"
      using less.hyps[of 0 "sy + 1"] cf reg wrap by simp
    show ?thesis
    proof (cases "b (sx, sy) = PLAYER_NONE")
      case True
      have "scanEmpty M N b sx sy = Some (sx, sy)"
        using True by (simp add: scanEmpty.simps[of M N b sx sy])
      moreover have "nextPosition M N b (sx, sy) = scanEmpty M N b 0 (sy + 1)"
        using wrap reg by (simp add: nextPosition_def)
      ultimately have "enumScan M N b sx sy = (sx, sy) # enumScan M N b 0 (sy + 1)"
        by (simp add: enumScan_def enumFrom.simps[of M N b "(sx, sy)"])
      with IH cf True show ?thesis by simp
    next
      case False
      have "scanEmpty M N b sx sy = scanEmpty M N b 0 (sy + 1)"
        using False wrap reg by (simp add: scanEmpty.simps[of M N b sx sy])
      then have "enumScan M N b sx sy = enumScan M N b 0 (sy + 1)"
        by (simp add: enumScan_def)
      with IH cf False show ?thesis by simp
    qed
  next
    case last
    have cf: "cellsFrom M N sx sy = [(sx, sy)]"
      using reg last by (simp add: cellsFrom_last)
    show ?thesis
    proof (cases "b (sx, sy) = PLAYER_NONE")
      case True
      have "scanEmpty M N b sx sy = Some (sx, sy)"
        using True by (simp add: scanEmpty.simps[of M N b sx sy])
      moreover have "nextPosition M N b (sx, sy) = None"
        using last reg by (simp add: nextPosition_def)
      ultimately have "enumScan M N b sx sy = [(sx, sy)]"
        by (simp add: enumScan_def enumFrom.simps[of M N b "(sx, sy)"])
      with cf True show ?thesis by simp
    next
      case False
      have "scanEmpty M N b sx sy = None"
        using False last reg by (simp add: scanEmpty.simps[of M N b sx sy])
      then have "enumScan M N b sx sy = []"
        by (simp add: enumScan_def)
      with cf False show ?thesis by simp
    qed
  qed
qed

lemma enumFrom_sentinel:
  assumes "1 \<le> M" "1 \<le> N"
  shows "enumFrom M N b (- 1, y0) = filter (\<lambda>p. b p = PLAYER_NONE) (allCells M N)"
proof -
  have "enumFrom M N b (- 1, y0) = enumScan M N b 0 0"
    by (simp add: enumFrom.simps[of M N b "(- 1, y0)"] nextPosition_def enumScan_def)
  also have "\<dots> = filter (\<lambda>p. b p = PLAYER_NONE) (cellsFrom M N 0 0)"
    using assms by (intro enumScan_filter) auto
  finally show ?thesis using assms by (simp add: allCells_cellsFrom)
qed

lemma set_allCells: "set (allCells M N) = {(x, y). 0 \<le> x \<and> x < M \<and> 0 \<le> y \<and> y < N}"
  by (auto simp: allCells_def rowCells_def)


lemma allCells_product: "allCells M N = map prod.swap (List.product [0..N - 1] [0..M - 1])"
  by (simp add: allCells_def rowCells_def[abs_def] product_concat_map map_concat comp_def)

lemma distinct_allCells: "distinct (allCells M N)"
  by (simp add: allCells_product distinct_map distinct_product)

lemma enumFrom_exhausted: "nextPosition M N b (last (c # enumFrom M N b c)) = None"
proof (induction M N b c rule: enumFrom.induct)
  case (1 M N b c)
  show ?case
  proof (cases "nextPosition M N b c")
    case None
    then show ?thesis by (simp add: enumFrom.simps[of M N b c])
  next
    case (Some p)
    with "1.IH"[OF Some] show ?thesis by (simp add: enumFrom.simps[of M N b c])
  qed
qed


text \<open>
  Claim C7.  On a board with at least one column and one row, calling \<^verbatim>\<open>nextPosition\<close>
  from the sentinel cursor again and again yields the empty cells of the active region in
  scan order (\<open>x\<close> fastest, then \<open>y\<close>), each exactly once and nothing else, and the
  call after the last of them returns 0.
\<close>

theorem nextPosition_enumerates:
  assumes "1 \<le> M" and "1 \<le> N"
  shows "enumFrom M N b (- 1, y0) = filter (\<lambda>p. b p = PLAYER_NONE) (allCells M N)
       \<and> nextPosition M N b (last ((- 1, y0) # enumFrom M N b (- 1, y0))) = None
       \<and> distinct (enumFrom M N b (- 1, y0))
       \<and> set (enumFrom M N b (- 1, y0)) = {(x, y). 0 \<le> x \<and> x < M \<and> 0 \<le> y \<and> y < N \<and> b (x, y) = PLAYER_NONE}"
proof -
  have e: "enumFrom M N b (- 1, y0) = filter (\<lambda>p. b p = PLAYER_NONE) (allCells M N)"
    using assms by (rule enumFrom_sentinel)
  have "distinct (enumFrom M N b (- 1, y0))"
    unfolding e by (simp add: distinct_allCells)
  moreover have "set (enumFrom M N b (- 1, y0)) = {(x, y). 0 \<le> x \<and> x < M \<and> 0 \<le> y \<and> y < N \<and> b (x, y) = PLAYER_NONE}"
    unfolding e by (auto simp: set_allCells)
  ultimately show ?thesis using e enumFrom_exhausted[of M N b "(- 1, y0)"] by simp
qed

text \<open>The fully empty 2 by 2 board: four cells in order, then exhaustion.\<close>

theorem nextPosition_enumerates_witness:
  "(1::int) \<le> 2 \<and> enumFrom 2 2 (\<lambda>p. PLAYER_NONE) (- 1, 0) = [(0, 0), (1, 0), (0, 1), (1, 1)]
   \<and> nextPosition 2 2 (\<lambda>p. PLAYER_NONE) (1, 1) = None"
proof -
  have h: "(1::int) \<le> 2" by simp
  note t = nextPosition_enumerates[OF h h, of "\<lambda>p. PLAYER_NONE" 0]
  from t have e: "enumFrom 2 2 (\<lambda>p. PLAYER_NONE) (- 1, 0) = [(0, 0), (1, 0), (0, 1), (1, 1)]"
    by (simp add: allCells_def rowCells_def upto.simps)
  from t have "nextPosition 2 2 (\<lambda>p. PLAYER_NONE) (last ((- 1, 0) # enumFrom 2 2 (\<lambda>p. PLAYER_NONE) (- 1, 0))) = None"
    by (rule conjunct2[THEN conjunct1])
  then have x: "nextPosition 2 2 (\<lambda>p. PLAYER_NONE) (1, 1) = None"
    unfolding e by simp
  from h e x show ?thesis by (intro conjI)
qed


text \<open>
  Claim C10.  The prototype's \<^verbatim>\<open>checkWin\<close> and the one of \<^verbatim>\<open>board.c\<close> do not agree
  on every board: on the 3 by 2 board with \<open>K = 2\<close> whose column \<open>x = 2\<close> holds two of
  our stones, \<^verbatim>\<open>board.c\<close> reports our win and the prototype, whose column loop stops at
  \<open>x < N = 2\<close>, reports no winner.
\<close>

theorem protoCheckWin_misses_column:
  "checkWin 3 2 2 (boardOf [((2, 0), PLAYER_US), ((2, 1), PLAYER_US)]) = PLAYER_US
   \<and> protoCheckWin 3 2 2 (boardOf [((2, 0), PLAYER_US), ((2, 1), PLAYER_US)]) = PLAYER_NONE"
  by code_simp

text \<open>On square boards the two column blocks visit the same cells.\<close>

lemma protoCheckWin_square: "protoCheckWin M M K b = checkWin M M K b"
  unfolding protoCheckWin_def checkWin_def protoColLines_def colLines_def by (rule refl)


section \<open>Depth controller\<close>

text \<open>
  \<^verbatim>\<open>calculateDepth\<close>.  Its arguments and \<^verbatim>\<open>searched\<close> are C \<^verbatim>\<open>int\<close>s, 32 bits wide:
  they are words, compared as signed numbers, and the product \<^verbatim>\<open>searched *= --openNodes\<close>
  wraps around as the two's complement machine computes it.  The loop counter \<open>i\<close> stays
  between 1 and 20 and is a plain integer; \<open>calcLoop i\<close> is the loop from the test
  \<^verbatim>\<open>i < 20\<close> on.
\<close>

function calcLoop :: "int \<Rightarrow> 32 word \<Rightarrow> 32 word \<Rightarrow> 32 word \<Rightarrow> int" where
  "calcLoop i openNodes searched maxNodesSearched =
     (if i < 20 then
        (if openNodes = 0 then i - 1
         else if sint searched \<ge> sint maxNodesSearched then i - 1
         else calcLoop (i + 1) (openNodes - 1) (searched * (openNodes - 1)) maxNodesSearched)
      else 20)"
  by pat_completeness auto
termination
  by (relation "measure (\<lambda>(i, openNodes, searched, maxNodesSearched). nat (20 - i))") auto

declare calcLoop.simps [simp del]

definition calculateDepth :: "32 word \<Rightarrow> 32 word \<Rightarrow> int" where
  "calculateDepth openNodes maxNodesSearched = calcLoop 1 openNodes openNodes maxNodesSearched"

lemma calculateDepth_zero: "calculateDepth 0 budget = 0"
  by (simp add: calculateDepth_def calcLoop.simps[of 1])



lemma calcLoop_ge: "i \<le> 20 \<Longrightarrow> i - 1 \<le> calcLoop i openNodes searched maxNodesSearched"
proof (induction i openNodes searched maxNodesSearched rule: calcLoop.induct)
  case (1 i openNodes searched maxNodesSearched)
  show ?case
  proof (cases "i < 20 \<and> openNodes \<noteq> 0 \<and> \<not> sint searched \<ge> sint maxNodesSearched")
    case True
    then have "calcLoop i openNodes searched maxNodesSearched
        = calcLoop (i + 1) (openNodes - 1) (searched * (openNodes - 1)) maxNodesSearched"
      by (subst calcLoop.simps) simp
    moreover have "i + 1 - 1 \<le> calcLoop (i + 1) (openNodes - 1) (searched * (openNodes - 1)) maxNodesSearched"
      using True "1.prems" by (intro "1.IH") auto
    ultimately show ?thesis by simp
  next
    case False
    then show ?thesis using "1.prems" by (subst calcLoop.simps) auto
  qed
qed

lemma calculateDepth_ge_1:
  assumes "openNodes \<noteq> 0" and "sint openNodes < sint maxNodesSearched"
  shows "1 \<le> calculateDepth openNodes maxNodesSearched"
proof -
  have "calculateDepth openNodes maxNodesSearched
      = calcLoop 2 (openNodes - 1) (openNodes * (openNodes - 1)) maxNodesSearched"
    using assms by (simp add: calculateDepth_def calcLoop.simps[of 1])
  moreover have "2 - 1 \<le> calcLoop 2 (openNodes - 1) (openNodes * (openNodes - 1)) maxNodesSearched"
    by (rule calcLoop_ge) simp
  ultimately show ?thesis by simp
qed

subsection \<open>Budgets the node count never reaches\<close>




text \<open>
  The projected node count in exact arithmetic: \<open>projected n j = n (n - 1) \<dots> (n - j + 1)\<close>,
  the value \<^verbatim>\<open>searched\<close> has at the test of round \<open>j\<close> when no product has left the range
  of \<^verbatim>\<open>int\<close>.  With \<open>n\<close> empty cells the budget is tested in the rounds 1 to \<open>min n 19\<close>.
  A budget that none of these counts reaches exists only for \<open>n \<le> 12\<close>, since already
  \<open>13 \<cdot> 12 \<cdots> 3\<close> is above \<^verbatim>\<open>INT_MAX\<close>; below such a budget every product of the loop
  is the exact one.
\<close>

fun projected :: "int \<Rightarrow> nat \<Rightarrow> int" where
  "projected n 0 = 1"
| "projected n (Suc j) = projected n j * (n - int j)"










subsection \<open>Products outside the range of int\<close>

text \<open>
  From 13 empty cells on a large budget lets \<^verbatim>\<open>searched *= --openNodes\<close> leave the range
  of \<^verbatim>\<open>int\<close>, which C leaves undefined.  On the two's complement machine modelled here
  the product wraps around: up to 18 empty cells the budget \<^verbatim>\<open>INT_MAX\<close> still gives the
  number of empty cells, and 19 empty cells give 20, after the exact count has passed the
  budget in round 8.
\<close>

lemma calculateDepth_small: "map (\<lambda>n. calculateDepth (word_of_int n) 2147483647) [0..18] = [0..18]"
  by code_simp

lemma calculateDepth_19_wraps: "calculateDepth 19 2147483647 = 20"
  by (simp add: calculateDepth_def calcLoop.simps)

lemma projected_19_8: "projected 19 8 = 3047466240"
  by (simp add: eval_nat_numeral)

section \<open>Position evaluator\<close>

text \<open>
  The counters the macro \<^verbatim>\<open>EVAL_COUNTERS_DECL\<close> declares for one line, the macro
  \<^verbatim>\<open>EVAL_RUN_BODY\<close> for one cell and the macro \<^verbatim>\<open>EVAL_END_RUN\<close> for the end of
  the line.  The state of a line is the counters together with \<^verbatim>\<open>finalScore\<close>.
  The counters and the score are C integers of 32 bits or more; \<open>evaluateBoard_bound\<close>
  below shows that the score stays within 7230 on the boards the program supports, so
  plain integers are exact here.
\<close>

record counters =
  runLen1 :: int
  pieces1 :: int
  runScore1 :: int
  runLen2 :: int
  pieces2 :: int
  runScore2 :: int

definition EVAL_COUNTERS_DECL :: counters where
  "EVAL_COUNTERS_DECL =
     \<lparr>runLen1 = 0, pieces1 = 0, runScore1 = 0, runLen2 = 0, pieces2 = 0, runScore2 = 0\<rparr>"

definition EVAL_RUN_BODY :: "int \<Rightarrow> 8 word \<Rightarrow> counters \<times> int \<Rightarrow> counters \<times> int" where
  "EVAL_RUN_BODY K c st =
     (case st of (s, finalScore) \<Rightarrow>
        if c AND PLAYER_US \<noteq> 0 then
          (\<lparr>runLen1 = runLen1 s + 1, pieces1 = pieces1 s + 1,
            runScore1 = runScore1 s + (pieces1 s + 1) + 1,
            runLen2 = 0, pieces2 = 0, runScore2 = 0\<rparr>,
           if runLen2 s \<ge> K then finalScore - runScore2 s else finalScore)
        else if c AND PLAYER_THEM \<noteq> 0 then
          (\<lparr>runLen1 = 0, pieces1 = 0, runScore1 = 0,
            runLen2 = runLen2 s + 1, pieces2 = pieces2 s + 1,
            runScore2 = runScore2 s + (pieces2 s + 1) + 1\<rparr>,
           if runLen1 s \<ge> K then finalScore + runScore1 s else finalScore)
        else (s\<lparr>runLen1 := runLen1 s + 1, runLen2 := runLen2 s + 1\<rparr>, finalScore))"

definition EVAL_END_RUN :: "int \<Rightarrow> counters \<times> int \<Rightarrow> int" where
  "EVAL_END_RUN K st =
     (case st of (s, finalScore) \<Rightarrow>
        (let f2 = (if runLen2 s \<ge> K then finalScore - runScore2 s else finalScore)
         in if runLen1 s \<ge> K then f2 + runScore1 s else f2))"

text \<open>One line of a loop nest, and the loop over the lines of one direction.\<close>

definition scoreLine :: "int \<Rightarrow> board_t \<Rightarrow> pos list \<Rightarrow> int \<Rightarrow> int" where
  "scoreLine K b line finalScore =
     EVAL_END_RUN K (fold (\<lambda>p. EVAL_RUN_BODY K (b p)) line (EVAL_COUNTERS_DECL, finalScore))"

definition scoreLines :: "int \<Rightarrow> board_t \<Rightarrow> pos list list \<Rightarrow> int \<Rightarrow> int" where
  "scoreLines K b lines finalScore = fold (scoreLine K b) lines finalScore"

text \<open>
  The first loop nest of \<^verbatim>\<open>evaluateBoard\<close>: one or two points per stone.  The C
  quotients \<^verbatim>\<open>M/3\<close> and \<^verbatim>\<open>N/3\<close> are taken of numbers that are not negative
  whenever the body runs, where C's division and \<open>div\<close> agree.
\<close>

definition scoreCell :: "int \<Rightarrow> int \<Rightarrow> board_t \<Rightarrow> pos \<Rightarrow> int \<Rightarrow> int" where
  "scoreCell M N b p finalScore =
     (case p of (x, y) \<Rightarrow>
        (let v = (if x \<ge> M div 3 \<and> x < M - M div 3 \<and> y \<ge> N div 3 \<and> y < N - N div 3
                  then 2 else 1)
         in if b (x, y) AND PLAYER_US \<noteq> 0 then finalScore + v
            else if b (x, y) AND PLAYER_THEM \<noteq> 0 then finalScore - v
            else finalScore))"

definition scoreLocation :: "int \<Rightarrow> int \<Rightarrow> board_t \<Rightarrow> int \<Rightarrow> int" where
  "scoreLocation M N b finalScore =
     fold (\<lambda>x. fold (\<lambda>y. scoreCell M N b (x, y)) [0..N - 1]) [0..M - 1] finalScore"

definition evaluateBoard :: "int \<Rightarrow> int \<Rightarrow> int \<Rightarrow> board_t \<Rightarrow> int" where
  "evaluateBoard M N K b =
     scoreLines K b (downRightLines M N)
       (scoreLines K b (downLeftLines M N)
         (scoreLines K b (colLines M N)
           (scoreLines K b (rowLines M N)
             (scoreLocation M N b 0))))"

text \<open>The active region, and the four loop nests stay inside it.\<close>

definition inRegion :: "int \<Rightarrow> int \<Rightarrow> pos \<Rightarrow> bool" where
  "inRegion M N p = (case p of (x, y) \<Rightarrow> 0 \<le> x \<and> x < M \<and> 0 \<le> y \<and> y < N)"

lemma rowLines_region: "l \<in> set (rowLines M N) \<Longrightarrow> p \<in> set l \<Longrightarrow> inRegion M N p"
  by (auto simp: rowLines_def inRegion_def)

lemma colLines_region: "l \<in> set (colLines M N) \<Longrightarrow> p \<in> set l \<Longrightarrow> inRegion M N p"
  by (auto simp: colLines_def inRegion_def)

lemma downLeftLines_region: "l \<in> set (downLeftLines M N) \<Longrightarrow> p \<in> set l \<Longrightarrow> inRegion M N p"
  by (auto simp: downLeftLines_def downLeftLine_def inRegion_def Let_def split: if_splits)

lemma downRightLines_region: "l \<in> set (downRightLines M N) \<Longrightarrow> p \<in> set l \<Longrightarrow> inRegion M N p"
  by (auto simp: downRightLines_def downRightLine_def inRegion_def Let_def split: if_splits)


text \<open>
  A board whose cells in the active region are empty, ours or theirs, and the board
  with the two players' stones exchanged.
\<close>

definition cellsOk :: "int \<Rightarrow> int \<Rightarrow> board_t \<Rightarrow> bool" where
  "cellsOk M N b =
     (\<forall>x y. 0 \<le> x \<and> x < M \<and> 0 \<le> y \<and> y < N \<longrightarrow>
        b (x, y) = PLAYER_NONE \<or> b (x, y) = PLAYER_US \<or> b (x, y) = PLAYER_THEM)"

definition swapBoard :: "board_t \<Rightarrow> board_t" where
  "swapBoard b = (\<lambda>p. if b p = PLAYER_US then PLAYER_THEM
                      else if b p = PLAYER_THEM then PLAYER_US else b p)"

text \<open>Exchanging the stones exchanges the two sets of counters and negates the score.\<close>

definition mirror :: "counters \<Rightarrow> counters" where
  "mirror s = \<lparr>runLen1 = runLen2 s, pieces1 = pieces2 s, runScore1 = runScore2 s,
               runLen2 = runLen1 s, pieces2 = pieces1 s, runScore2 = runScore1 s\<rparr>"

definition flipState :: "counters \<times> int \<Rightarrow> counters \<times> int" where
  "flipState st = (mirror (fst st), - snd st)"

lemma cellsOk_cell: "cellsOk M N b \<Longrightarrow> inRegion M N p \<Longrightarrow> b p = 0 \<or> b p = 1 \<or> b p = 2"
  by (cases p) (auto simp: cellsOk_def inRegion_def)

lemma body_swap:
  assumes "b p = 0 \<or> b p = 1 \<or> b p = 2"
  shows "EVAL_RUN_BODY K (swapBoard b p) (flipState st) = flipState (EVAL_RUN_BODY K (b p) st)"
  using assms
  by (cases st) (auto simp: EVAL_RUN_BODY_def swapBoard_def flipState_def mirror_def)

lemma fold_body_swap:
  assumes "\<forall>p\<in>set l. b p = 0 \<or> b p = 1 \<or> b p = 2"
  shows "fold (\<lambda>p. EVAL_RUN_BODY K (swapBoard b p)) l (flipState st)
       = flipState (fold (\<lambda>p. EVAL_RUN_BODY K (b p)) l st)"
  using assms
proof (induction l arbitrary: st)
  case Nil
  show ?case by simp
next
  case (Cons p l)
  then show ?case by (simp add: body_swap)
qed

lemma end_swap: "EVAL_END_RUN K (flipState st) = - EVAL_END_RUN K st"
  by (cases st) (simp add: EVAL_END_RUN_def flipState_def mirror_def Let_def)

lemma flipState_init: "(EVAL_COUNTERS_DECL, - f) = flipState (EVAL_COUNTERS_DECL, f)"
  by (simp add: flipState_def mirror_def EVAL_COUNTERS_DECL_def)

lemma scoreLine_swap:
  assumes "\<forall>p\<in>set l. b p = 0 \<or> b p = 1 \<or> b p = 2"
  shows "scoreLine K (swapBoard b) l (- f) = - scoreLine K b l f"
  unfolding scoreLine_def flipState_init
  by (simp only: fold_body_swap[OF assms] end_swap)

lemma scoreLines_swap:
  assumes "\<forall>l\<in>set ls. \<forall>p\<in>set l. b p = 0 \<or> b p = 1 \<or> b p = 2"
  shows "scoreLines K (swapBoard b) ls (- f) = - scoreLines K b ls f"
  using assms unfolding scoreLines_def
proof (induction ls arbitrary: f)
  case Nil
  show ?case by simp
next
  case (Cons l ls)
  then show ?case by (simp add: scoreLine_swap)
qed

lemma scoreCell_swap:
  assumes "b p = 0 \<or> b p = 1 \<or> b p = 2"
  shows "scoreCell M N (swapBoard b) p (- f) = - scoreCell M N b p f"
  using assms by (cases p) (auto simp: scoreCell_def swapBoard_def Let_def)

lemma fold_scoreCell_swap:
  assumes "\<forall>p\<in>set l. b p = 0 \<or> b p = 1 \<or> b p = 2"
  shows "fold (scoreCell M N (swapBoard b)) l (- f) = - fold (scoreCell M N b) l f"
  using assms
proof (induction l arbitrary: f)
  case Nil
  show ?case by simp
next
  case (Cons p l)
  then show ?case by (simp add: scoreCell_swap)
qed

lemma fold_concat_lines: "fold f (concat xss) s = fold (fold f) xss s"
  by (induction xss arbitrary: s) simp_all

lemma scoreLocation_fold:
  "scoreLocation M N b f = fold (scoreCell M N b) (concat (colLines M N)) f"
  by (simp add: scoreLocation_def colLines_def fold_concat_lines fold_map comp_def)

lemma cellsOk_lines:
  assumes "cellsOk M N b" and "\<And>l p. l \<in> set ls \<Longrightarrow> p \<in> set l \<Longrightarrow> inRegion M N p"
  shows "\<forall>l\<in>set ls. \<forall>p\<in>set l. b p = 0 \<or> b p = 1 \<or> b p = 2"
proof (intro ballI)
  fix l p assume "l \<in> set ls" "p \<in> set l"
  then have "inRegion M N p" by (rule assms(2))
  with assms(1) show "b p = 0 \<or> b p = 1 \<or> b p = 2" by (rule cellsOk_cell)
qed

lemma scoreLocation_swap:
  assumes "cellsOk M N b"
  shows "scoreLocation M N (swapBoard b) (- f) = - scoreLocation M N b f"
  unfolding scoreLocation_fold
proof (rule fold_scoreCell_swap, rule ballI)
  fix p assume "p \<in> set (concat (colLines M N))"
  then have "inRegion M N p" by (auto dest: colLines_region)
  with assms show "b p = 0 \<or> b p = 1 \<or> b p = 2" by (rule cellsOk_cell)
qed

text \<open>
  Claim C2.  The evaluator is anti-symmetric: on a board whose active cells are empty,
  ours or theirs, exchanging every stone of ours with one of theirs negates the score
  exactly.
\<close>

theorem evaluateBoard_antisymmetric:
  assumes "cellsOk M N b"
  shows "evaluateBoard M N K (swapBoard b) = - evaluateBoard M N K b"
proof -
  have r: "\<forall>l\<in>set (rowLines M N). \<forall>p\<in>set l. b p = 0 \<or> b p = 1 \<or> b p = 2"
    using assms by (rule cellsOk_lines) (rule rowLines_region)
  have c: "\<forall>l\<in>set (colLines M N). \<forall>p\<in>set l. b p = 0 \<or> b p = 1 \<or> b p = 2"
    using assms by (rule cellsOk_lines) (rule colLines_region)
  have dl: "\<forall>l\<in>set (downLeftLines M N). \<forall>p\<in>set l. b p = 0 \<or> b p = 1 \<or> b p = 2"
    using assms by (rule cellsOk_lines) (rule downLeftLines_region)
  have dr: "\<forall>l\<in>set (downRightLines M N). \<forall>p\<in>set l. b p = 0 \<or> b p = 1 \<or> b p = 2"
    using assms by (rule cellsOk_lines) (rule downRightLines_region)
  have "scoreLocation M N (swapBoard b) 0 = - scoreLocation M N b 0"
    using scoreLocation_swap[OF assms, of 0] by simp
  then show ?thesis
    unfolding evaluateBoard_def
    by (simp only: scoreLines_swap[OF r] scoreLines_swap[OF c] scoreLines_swap[OF dl] scoreLines_swap[OF dr])
qed


theorem evaluateBoard_antisymmetric_witness:
  "cellsOk 3 3 (boardOf [((1, 1), PLAYER_US), ((0, 0), PLAYER_THEM), ((2, 0), PLAYER_US)])
   \<and> evaluateBoard 3 3 3 (boardOf [((1, 1), PLAYER_US), ((0, 0), PLAYER_THEM), ((2, 0), PLAYER_US)]) = 11
   \<and> evaluateBoard 3 3 3
        (swapBoard (boardOf [((1, 1), PLAYER_US), ((0, 0), PLAYER_THEM), ((2, 0), PLAYER_US)])) = - 11"
proof -
  let ?b = "boardOf [((1, 1), PLAYER_US), ((0, 0), PLAYER_THEM), ((2, 0), PLAYER_US)]"
  have h: "cellsOk 3 3 ?b" by (simp add: cellsOk_def boardOf_def)
  have v: "evaluateBoard 3 3 3 ?b = 11" by code_simp
  from evaluateBoard_antisymmetric[OF h, of 3] v h show ?thesis by simp
qed

subsection \<open>The range of the evaluator\<close>

text \<open>
  Along one line the score moves by at most \<open>n (n + 3) / 2\<close> after \<open>n\<close> cells: the
  \<open>k\<close>-th stone of a run adds \<open>k + 1 \<le> n + 1\<close> to the run's score, and a run's score
  enters \<^verbatim>\<open>finalScore\<close> at most once.  \<open>runInv f0 n B\<close> is the invariant of the
  inner loop after \<open>n\<close> cells, with \<open>B\<close> twice the bound.
\<close>

lemma abs_tri: "\<bar>a - c\<bar> \<le> \<bar>a - b\<bar> + \<bar>b - (c::int)\<bar>"
  by linarith

definition runInv :: "int \<Rightarrow> int \<Rightarrow> int \<Rightarrow> counters \<times> int \<Rightarrow> bool" where
  "runInv f0 n B st =
     (case st of (s, f) \<Rightarrow>
        0 \<le> pieces1 s \<and> pieces1 s \<le> n \<and> 0 \<le> pieces2 s \<and> pieces2 s \<le> n \<and>
        0 \<le> runScore1 s \<and> 0 \<le> runScore2 s \<and>
        2 * (\<bar>f - f0\<bar> + runScore1 s + runScore2 s) \<le> B)"

lemma runInv_init: "runInv f0 0 0 (EVAL_COUNTERS_DECL, f0)"
  by (simp add: runInv_def EVAL_COUNTERS_DECL_def)

lemma runInv_body:
  assumes "0 \<le> n" and "runInv f0 n B st"
  shows "runInv f0 (n + 1) (B + 2 * n + 4) (EVAL_RUN_BODY K c st)"
proof -
  obtain s f where st: "st = (s, f)" by (cases st)
  from assms(2) have i: "0 \<le> pieces1 s" "pieces1 s \<le> n" "0 \<le> pieces2 s" "pieces2 s \<le> n"
      "0 \<le> runScore1 s" "0 \<le> runScore2 s" "2 * (\<bar>f - f0\<bar> + runScore1 s + runScore2 s) \<le> B"
    by (simp_all add: runInv_def st)
  have m: "\<bar>f - runScore2 s - f0\<bar> \<le> \<bar>f - f0\<bar> + runScore2 s"
          "\<bar>f + runScore1 s - f0\<bar> \<le> \<bar>f - f0\<bar> + runScore1 s"
    using i(5,6) by linarith+
  consider (us) "c AND PLAYER_US \<noteq> 0"
    | (them) "c AND PLAYER_US = 0" "c AND PLAYER_THEM \<noteq> 0"
    | (none) "c AND PLAYER_US = 0" "c AND PLAYER_THEM = 0"
    by blast
  then show ?thesis
  proof cases
    case us
    then show ?thesis using i m assms(1) by (simp add: runInv_def EVAL_RUN_BODY_def st)
  next
    case them
    then show ?thesis using i m assms(1) by (simp add: runInv_def EVAL_RUN_BODY_def st)
  next
    case none
    then show ?thesis using i assms(1) by (simp add: runInv_def EVAL_RUN_BODY_def st)
  qed
qed

lemma runInv_fold:
  assumes "0 \<le> n" and "runInv f0 n (n * (n + 3)) st"
  shows "runInv f0 (n + int (length l)) ((n + int (length l)) * (n + int (length l) + 3))
           (fold (\<lambda>p. EVAL_RUN_BODY K (b p)) l st)"
  using assms
proof (induction l arbitrary: n st)
  case Nil
  then show ?case by simp
next
  case (Cons p l)
  have "runInv f0 (n + 1) (n * (n + 3) + 2 * n + 4) (EVAL_RUN_BODY K (b p) st)"
    using Cons.prems by (rule runInv_body)
  moreover have "n * (n + 3) + 2 * n + 4 = (n + 1) * (n + 1 + 3)"
    by (simp add: algebra_simps)
  ultimately have "runInv f0 (n + 1) ((n + 1) * (n + 1 + 3)) (EVAL_RUN_BODY K (b p) st)"
    by simp
  with Cons.prems(1) have "runInv f0 (n + 1 + int (length l))
      ((n + 1 + int (length l)) * (n + 1 + int (length l) + 3))
      (fold (\<lambda>p. EVAL_RUN_BODY K (b p)) l (EVAL_RUN_BODY K (b p) st))"
    by (intro Cons.IH) simp_all
  moreover have "n + 1 + int (length l) = n + int (length (p # l))" by simp
  ultimately show ?case by (simp only: fold_Cons comp_apply)
qed

lemma runInv_end:
  assumes "runInv f0 n B st"
  shows "2 * \<bar>EVAL_END_RUN K st - f0\<bar> \<le> B"
proof -
  obtain s f where st: "st = (s, f)" by (cases st)
  from assms have i: "0 \<le> runScore1 s" "0 \<le> runScore2 s"
      "2 * (\<bar>f - f0\<bar> + runScore1 s + runScore2 s) \<le> B"
    by (simp_all add: runInv_def st)
  have "\<bar>f - runScore2 s + runScore1 s - f0\<bar> \<le> \<bar>f - f0\<bar> + runScore1 s + runScore2 s"
       "\<bar>f - runScore2 s - f0\<bar> \<le> \<bar>f - f0\<bar> + runScore1 s + runScore2 s"
       "\<bar>f + runScore1 s - f0\<bar> \<le> \<bar>f - f0\<bar> + runScore1 s + runScore2 s"
    using i(1,2) by linarith+
  with i show ?thesis by (simp add: EVAL_END_RUN_def Let_def st)
qed

text \<open>Twice the bound of a line of the given length, and of a list of lines.\<close>

definition lineBound :: "pos list \<Rightarrow> int" where
  "lineBound l = int (length l) * (int (length l) + 3)"

definition linesBound :: "pos list list \<Rightarrow> int" where
  "linesBound ls = sum_list (map lineBound ls)"

lemma scoreLine_bound: "2 * \<bar>scoreLine K b l f - f\<bar> \<le> lineBound l"
proof -
  have "runInv f (0 + int (length l)) ((0 + int (length l)) * (0 + int (length l) + 3))
          (fold (\<lambda>p. EVAL_RUN_BODY K (b p)) l (EVAL_COUNTERS_DECL, f))"
    by (rule runInv_fold) (simp_all add: runInv_init)
  then show ?thesis
    unfolding scoreLine_def lineBound_def by (auto dest: runInv_end)
qed

lemma scoreLines_bound: "2 * \<bar>scoreLines K b ls f - f\<bar> \<le> linesBound ls"
proof (induction ls arbitrary: f)
  case Nil
  show ?case by (simp add: scoreLines_def linesBound_def)
next
  case (Cons l ls)
  have a: "2 * \<bar>scoreLine K b l f - f\<bar> \<le> lineBound l" by (rule scoreLine_bound)
  have b: "2 * \<bar>scoreLines K b ls (scoreLine K b l f) - scoreLine K b l f\<bar> \<le> linesBound ls"
    by (rule Cons.IH)
  have "scoreLines K b (l # ls) f = scoreLines K b ls (scoreLine K b l f)"
    by (simp add: scoreLines_def)
  moreover have "linesBound (l # ls) = lineBound l + linesBound ls"
    by (simp add: linesBound_def)
  moreover have "\<bar>scoreLines K b ls (scoreLine K b l f) - f\<bar>
      \<le> \<bar>scoreLines K b ls (scoreLine K b l f) - scoreLine K b l f\<bar> + \<bar>scoreLine K b l f - f\<bar>"
    by (rule abs_tri)
  ultimately show ?case using a b by simp
qed

text \<open>The weight of a cell in the first loop nest.\<close>

definition cellWeight :: "int \<Rightarrow> int \<Rightarrow> pos \<Rightarrow> int" where
  "cellWeight M N p =
     (case p of (x, y) \<Rightarrow>
        if x \<ge> M div 3 \<and> x < M - M div 3 \<and> y \<ge> N div 3 \<and> y < N - N div 3 then 2 else 1)"

lemma scoreCell_bound: "\<bar>scoreCell M N b p f - f\<bar> \<le> cellWeight M N p"
  by (cases p) (auto simp: scoreCell_def cellWeight_def Let_def)

lemma fold_scoreCell_bound:
  "\<bar>fold (scoreCell M N b) l f - f\<bar> \<le> sum_list (map (cellWeight M N) l)"
proof (induction l arbitrary: f)
  case Nil
  show ?case by simp
next
  case (Cons p l)
  have a: "\<bar>scoreCell M N b p f - f\<bar> \<le> cellWeight M N p" by (rule scoreCell_bound)
  have b: "\<bar>fold (scoreCell M N b) l (scoreCell M N b p f) - scoreCell M N b p f\<bar>
            \<le> sum_list (map (cellWeight M N) l)" by (rule Cons.IH)
  have "\<bar>fold (scoreCell M N b) l (scoreCell M N b p f) - f\<bar>
      \<le> \<bar>fold (scoreCell M N b) l (scoreCell M N b p f) - scoreCell M N b p f\<bar>
        + \<bar>scoreCell M N b p f - f\<bar>"
    by (rule abs_tri)
  with a b show ?case by simp
qed

lemma scoreLocation_bound:
  "\<bar>scoreLocation M N b 0\<bar> \<le> sum_list (map (cellWeight M N) (concat (colLines M N)))"
  using fold_scoreCell_bound[of M N b "concat (colLines M N)" 0]
  by (simp add: scoreLocation_fold)

lemma bound_chain:
  fixes f0 :: int
  assumes "\<bar>f0\<bar> \<le> S" and "2 * \<bar>f1 - f0\<bar> \<le> A" and "2 * \<bar>f2 - f1\<bar> \<le> B"
    and "2 * \<bar>f3 - f2\<bar> \<le> C" and "2 * \<bar>f4 - f3\<bar> \<le> D"
  shows "2 * \<bar>f4\<bar> \<le> 2 * S + A + B + C + D"
proof -
  have step: "\<And>x y P Q. 2 * \<bar>x\<bar> \<le> P \<Longrightarrow> 2 * \<bar>y - x\<bar> \<le> Q \<Longrightarrow> 2 * \<bar>y::int\<bar> \<le> P + Q"
    by (simp add: abs_if split: if_splits)
  have "2 * \<bar>f0\<bar> \<le> 2 * S" using assms(1) by simp
  from step[OF step[OF step[OF step[OF this assms(2)] assms(3)] assms(4)] assms(5)]
  show ?thesis by simp
qed

lemma evaluateBoard_parts:
  "2 * \<bar>evaluateBoard M N K b\<bar> \<le>
     2 * sum_list (map (cellWeight M N) (concat (colLines M N)))
     + linesBound (rowLines M N) + linesBound (colLines M N)
     + linesBound (downLeftLines M N) + linesBound (downRightLines M N)"
proof -
  define f0 where "f0 = scoreLocation M N b 0"
  define f1 where "f1 = scoreLines K b (rowLines M N) f0"
  define f2 where "f2 = scoreLines K b (colLines M N) f1"
  define f3 where "f3 = scoreLines K b (downLeftLines M N) f2"
  define f4 where "f4 = scoreLines K b (downRightLines M N) f3"
  have e: "evaluateBoard M N K b = f4"
    by (simp add: evaluateBoard_def f0_def f1_def f2_def f3_def f4_def)
  have "\<bar>f0\<bar> \<le> sum_list (map (cellWeight M N) (concat (colLines M N)))"
    unfolding f0_def by (rule scoreLocation_bound)
  moreover have "2 * \<bar>f1 - f0\<bar> \<le> linesBound (rowLines M N)"
    unfolding f1_def by (rule scoreLines_bound)
  moreover have "2 * \<bar>f2 - f1\<bar> \<le> linesBound (colLines M N)"
    unfolding f2_def by (rule scoreLines_bound)
  moreover have "2 * \<bar>f3 - f2\<bar> \<le> linesBound (downLeftLines M N)"
    unfolding f3_def by (rule scoreLines_bound)
  moreover have "2 * \<bar>f4 - f3\<bar> \<le> linesBound (downRightLines M N)"
    unfolding f4_def by (rule scoreLines_bound)
  ultimately show ?thesis unfolding e by (rule bound_chain)
qed

lemma sum_list_le_const:
  fixes h :: "'a \<Rightarrow> int"
  assumes "\<And>x. x \<in> set xs \<Longrightarrow> h x \<le> c"
  shows "sum_list (map h xs) \<le> int (length xs) * c"
  using assms
proof (induction xs)
  case Nil
  show ?case by simp
next
  case (Cons x xs)
  have "h x \<le> c" by (rule Cons.prems) simp
  moreover have "sum_list (map h xs) \<le> int (length xs) * c"
    by (rule Cons.IH) (simp add: Cons.prems)
  ultimately show ?case by (simp add: algebra_simps)
qed

lemma lineBound_mono:
  assumes "int (length l) \<le> a"
  shows "lineBound l \<le> a * (a + 3)"
  unfolding lineBound_def using assms by (intro mult_mono) simp_all

lemma linesBound_grid:
  assumes "\<And>l. l \<in> set ls \<Longrightarrow> int (length l) \<le> a" and "int (length ls) \<le> c" and "0 \<le> a"
  shows "linesBound ls \<le> c * (a * (a + 3))"
proof -
  have "linesBound ls \<le> int (length ls) * (a * (a + 3))"
    unfolding linesBound_def by (rule sum_list_le_const) (rule lineBound_mono, rule assms(1))
  also have "\<dots> \<le> c * (a * (a + 3))"
    using assms(2,3) by (intro mult_right_mono) simp_all
  finally show ?thesis .
qed

lemma rowLines_bound:
  assumes "M \<le> a" and "N \<le> c" and "0 \<le> a" and "0 \<le> c"
  shows "linesBound (rowLines M N) \<le> c * (a * (a + 3))"
proof (rule linesBound_grid)
  fix l assume "l \<in> set (rowLines M N)"
  then show "int (length l) \<le> a" using assms by (auto simp: rowLines_def)
next
  show "int (length (rowLines M N)) \<le> c" using assms by (simp add: rowLines_def)
qed (rule assms)

lemma colLines_bound:
  assumes "M \<le> c" and "N \<le> a" and "0 \<le> a" and "0 \<le> c"
  shows "linesBound (colLines M N) \<le> c * (a * (a + 3))"
proof (rule linesBound_grid)
  fix l assume "l \<in> set (colLines M N)"
  then show "int (length l) \<le> a" using assms by (auto simp: colLines_def)
next
  show "int (length (colLines M N)) \<le> c" using assms by (simp add: colLines_def)
qed (rule assms)

text \<open>
  On a board of at most 15 by 15 the \<open>i\<close>-th diagonal has at most
  \<open>min (i + 1) (29 - i)\<close> cells.
\<close>

definition diagCap :: "int \<Rightarrow> int" where
  "diagCap i = (let h = min (i + 1) (29 - i) in h * (h + 3))"

lemma diagCap_total: "sum_list (map diagCap [0..28]) = 2930"
  by code_simp

lemma diagCap_nonneg: "0 \<le> i \<Longrightarrow> i \<le> 28 \<Longrightarrow> 0 \<le> diagCap i"
  by (simp add: diagCap_def Let_def min_def)

lemma diagCap_prefix:
  assumes "T \<le> 28"
  shows "sum_list (map diagCap [0..T]) \<le> 2930"
proof (cases "0 \<le> T")
  case True
  have "[0..28] = [0..T] @ [T + 1..28]" using True assms by (rule upto_split2)
  then have "sum_list (map diagCap [0..28]) = sum_list (map diagCap [0..T]) + sum_list (map diagCap [T + 1..28])"
    by simp
  moreover have "0 \<le> sum_list (map diagCap [T + 1..28])"
    using True by (intro sum_list_nonneg) (auto intro: diagCap_nonneg)
  ultimately show ?thesis using diagCap_total by linarith
next
  case False
  then show ?thesis by simp
qed

lemma diag_lines_bound:
  assumes "\<And>i. 0 \<le> i \<Longrightarrow> i \<le> M + N - 2 \<Longrightarrow> int (length (line i)) \<le> min (i + 1) (29 - i)"
    and "M + N - 2 \<le> 28"
  shows "linesBound (map line [0..M + N - 1 - 1]) \<le> 2930"
proof -
  have "linesBound (map line [0..M + N - 1 - 1]) = sum_list (map (\<lambda>i. lineBound (line i)) [0..M + N - 2])"
    by (simp add: linesBound_def comp_def)
  also have "\<dots> \<le> sum_list (map diagCap [0..M + N - 2])"
  proof (rule sum_list_mono)
    fix i assume "i \<in> set [0..M + N - 2]"
    then have "int (length (line i)) \<le> min (i + 1) (29 - i)" by (intro assms(1)) auto
    then have "lineBound (line i) \<le> min (i + 1) (29 - i) * (min (i + 1) (29 - i) + 3)"
      by (rule lineBound_mono)
    then show "lineBound (line i) \<le> diagCap i" by (simp add: diagCap_def Let_def)
  qed
  also have "\<dots> \<le> 2930" using assms(2) by (rule diagCap_prefix)
  finally show ?thesis .
qed

lemma downLeftLines_bound:
  assumes "M \<le> 15" and "N \<le> 15"
  shows "linesBound (downLeftLines M N) \<le> 2930"
  unfolding downLeftLines_def
proof (rule diag_lines_bound)
  fix i :: int assume "0 \<le> i" "i \<le> M + N - 2"
  then show "int (length (downLeftLine M N i)) \<le> min (i + 1) (29 - i)"
    using assms by (auto simp: downLeftLine_def Let_def)
next
  show "M + N - 2 \<le> 28" using assms by simp
qed

lemma downRightLines_bound:
  assumes "M \<le> 15" and "N \<le> 15"
  shows "linesBound (downRightLines M N) \<le> 2930"
  unfolding downRightLines_def
proof (rule diag_lines_bound)
  fix i :: int assume "0 \<le> i" "i \<le> M + N - 2"
  then show "int (length (downRightLine M N i)) \<le> min (i + 1) (29 - i)"
    using assms by (auto simp: downRightLine_def Let_def)
next
  show "M + N - 2 \<le> 28" using assms by simp
qed


lemma sum_concat_map:
  fixes w :: "'a \<Rightarrow> int"
  shows "sum_list (map w (concat xss)) = sum_list (map (\<lambda>l. sum_list (map w l)) xss)"
  by (induction xss) simp_all

lemma cellWeight_le_2: "cellWeight M N p \<le> 2"
  by (cases p) (simp add: cellWeight_def)

lemma weight_sum_bound:
  assumes "M \<le> c" and "N \<le> a" and "0 \<le> a" and "0 \<le> c"
  shows "sum_list (map (cellWeight M N) (concat (colLines M N))) \<le> c * (a * 2)"
proof -
  have "sum_list (map (cellWeight M N) (concat (colLines M N)))
      = sum_list (map (\<lambda>l. sum_list (map (cellWeight M N) l)) (colLines M N))"
    by (rule sum_concat_map)
  also have "\<dots> \<le> int (length (colLines M N)) * (a * 2)"
  proof (rule sum_list_le_const)
    fix l assume l: "l \<in> set (colLines M N)"
    have "sum_list (map (cellWeight M N) l) \<le> int (length l) * 2"
      by (rule sum_list_le_const) (rule cellWeight_le_2)
    moreover have "int (length l) \<le> a" using l assms by (auto simp: colLines_def)
    ultimately show "sum_list (map (cellWeight M N) l) \<le> a * 2" by simp
  qed
  also have "\<dots> \<le> c * (a * 2)"
    using assms by (intro mult_right_mono) (simp_all add: colLines_def)
  finally show ?thesis .
qed

lemma weight_sum_15: "sum_list (map (cellWeight 15 15) (concat (colLines 15 15))) = 250"
  by code_simp

lemma evaluateBoard_bound:
  assumes "M \<le> 15" and "N \<le> 15"
  shows "\<bar>evaluateBoard M N K b\<bar> \<le> 7230"
proof -
  note parts = evaluateBoard_parts[of M N K b]
  have dl: "linesBound (downLeftLines M N) \<le> 2930" using assms by (rule downLeftLines_bound)
  have dr: "linesBound (downRightLines M N) \<le> 2930" using assms by (rule downRightLines_bound)
  consider (full) "M = 15" "N = 15" | (narrow) "M \<le> 14" | (low) "N \<le> 14"
    using assms by linarith
  then have "2 * sum_list (map (cellWeight M N) (concat (colLines M N)))
     + linesBound (rowLines M N) + linesBound (colLines M N) \<le> 8600"
  proof cases
    case full
    have "linesBound (rowLines 15 15) \<le> 15 * (15 * (15 + 3))" by (rule rowLines_bound) simp_all
    moreover have "linesBound (colLines 15 15) \<le> 15 * (15 * (15 + 3))" by (rule colLines_bound) simp_all
    ultimately show ?thesis using weight_sum_15 full by simp
  next
    case narrow
    have "sum_list (map (cellWeight M N) (concat (colLines M N))) \<le> 14 * (15 * 2)"
      using narrow assms by (intro weight_sum_bound) simp_all
    moreover have "linesBound (rowLines M N) \<le> 15 * (14 * (14 + 3))"
      using narrow assms by (intro rowLines_bound) simp_all
    moreover have "linesBound (colLines M N) \<le> 14 * (15 * (15 + 3))"
      using narrow assms by (intro colLines_bound) simp_all
    ultimately show ?thesis by simp
  next
    case low
    have "sum_list (map (cellWeight M N) (concat (colLines M N))) \<le> 15 * (14 * 2)"
      using low assms by (intro weight_sum_bound) simp_all
    moreover have "linesBound (rowLines M N) \<le> 14 * (15 * (15 + 3))"
      using low assms by (intro rowLines_bound) simp_all
    moreover have "linesBound (colLines M N) \<le> 15 * (14 * (14 + 3))"
      using low assms by (intro colLines_bound) simp_all
    ultimately show ?thesis by simp
  qed
  with parts dl dr have "2 * \<bar>evaluateBoard M N K b\<bar> \<le> 14460" by linarith
  then show ?thesis by simp
qed

text \<open>The bound is attained: the 15 by 15 board full of our stones, with \<open>K = 1\<close>.\<close>

lemma evaluateBoard_full_board: "evaluateBoard 15 15 1 (\<lambda>p. PLAYER_US) = 7230"
  by code_simp

section \<open>Tactical solver\<close>

text \<open>\<^verbatim>\<open>copyWithMove\<close>: the copy of the board with one more stone.\<close>

definition copyWithMove :: "board_t \<Rightarrow> player_t \<Rightarrow> pos \<Rightarrow> board_t" where
  "copyWithMove src player p = src(p := player)"

text \<open>
  The cells a loop \<^verbatim>\<open>*x = -1; while(nextPosition(b, x, y))\<close> visits.  With the sentinel
  in \<open>x\<close> the first call does not use \<open>y\<close>, so the sequence is the same whatever
  \<open>y\<close> holds; it is written with 0.
\<close>

definition positions :: "int \<Rightarrow> int \<Rightarrow> board_t \<Rightarrow> pos list" where
  "positions M N b = enumFrom M N b (- 1, 0)"

text \<open>
  A loop of \<^verbatim>\<open>basicSolve\<close> that returns 1 at the first cell passing a test.  The
  result is the flag and the cursor \<open>(x, y)\<close> the caller is left with: the cell found,
  or the last cell visited when the loop runs out.
\<close>

fun findMove :: "(pos \<Rightarrow> bool) \<Rightarrow> pos list \<Rightarrow> pos \<Rightarrow> bool \<times> pos" where
  "findMove P [] c = (False, c)"
| "findMove P (p # ps) c = (if P p then (True, p) else findMove P ps p)"

text \<open>
  The inner counting loop (\<^verbatim>\<open>winCount\<close>): the moves of \<open>player\<close> on \<open>s0\<close> that
  win at once; and the loop of the "third level" probe, which adds to \<^verbatim>\<open>winCount\<close>
  every reply after which two such moves exist.
\<close>

definition countWins :: "int \<Rightarrow> int \<Rightarrow> int \<Rightarrow> board_t \<Rightarrow> player_t \<Rightarrow> int" where
  "countWins M N K s0 player =
     fold (\<lambda>q winCount. if checkWin M N K (copyWithMove s0 player q) = player
                         then winCount + 1 else winCount)
          (positions M N s0) 0"

definition thirdLevel :: "int \<Rightarrow> int \<Rightarrow> int \<Rightarrow> board_t \<Rightarrow> player_t \<Rightarrow> int \<Rightarrow> int" where
  "thirdLevel M N K s0 player winCount =
     fold (\<lambda>q wc. if countWins M N K (copyWithMove s0 player q) player \<ge> 2 then wc + 1 else wc)
          (positions M N s0) winCount"

text \<open>
  The tests of the six loops of \<^verbatim>\<open>basicSolve\<close>, in the order of the source: win,
  block a win, "fork if we can", "fork if we can (incl. third level forks)", "block fork
  if we can", "block fork if we can (and third level fork)".
\<close>

definition winsAt :: "int \<Rightarrow> int \<Rightarrow> int \<Rightarrow> board_t \<Rightarrow> player_t \<Rightarrow> pos \<Rightarrow> bool" where
  "winsAt M N K b player p = (checkWin M N K (copyWithMove b player p) = player)"

definition forkAt :: "int \<Rightarrow> int \<Rightarrow> int \<Rightarrow> board_t \<Rightarrow> pos \<Rightarrow> bool" where
  "forkAt M N K b p =
     (let s0 = copyWithMove b PLAYER_US p;
          winCount = countWins M N K s0 PLAYER_US
      in winCount \<ge> 2)"

definition forkAt3rd :: "int \<Rightarrow> int \<Rightarrow> int \<Rightarrow> board_t \<Rightarrow> pos \<Rightarrow> bool" where
  "forkAt3rd M N K b p =
     (let s0 = copyWithMove b PLAYER_US p;
          winCount = countWins M N K s0 PLAYER_US
      in winCount \<ge> 2)"

definition blockForkAt :: "int \<Rightarrow> int \<Rightarrow> int \<Rightarrow> board_t \<Rightarrow> pos \<Rightarrow> bool" where
  "blockForkAt M N K b p =
     (let s0 = copyWithMove b PLAYER_THEM p;
          winCount = countWins M N K s0 PLAYER_THEM;
          winCount' = (if winCount = 1 then thirdLevel M N K s0 PLAYER_US winCount else winCount)
      in winCount' \<ge> 2)"

definition blockForkAt3rd :: "int \<Rightarrow> int \<Rightarrow> int \<Rightarrow> board_t \<Rightarrow> pos \<Rightarrow> bool" where
  "blockForkAt3rd M N K b p =
     (let s0 = copyWithMove b PLAYER_THEM p;
          winCount = countWins M N K s0 PLAYER_THEM;
          winCount' = (if winCount = 1 then thirdLevel M N K s0 PLAYER_THEM winCount else winCount)
      in winCount' \<ge> 2)"

definition basicSolve :: "int \<Rightarrow> int \<Rightarrow> int \<Rightarrow> board_t \<Rightarrow> pos \<Rightarrow> bool \<times> pos" where
  "basicSolve M N K b c =
     (let r1 = findMove (winsAt M N K b PLAYER_US) (positions M N b) (- 1, snd c) in
      if fst r1 then r1 else
      let r2 = findMove (winsAt M N K b PLAYER_THEM) (positions M N b) (- 1, snd (snd r1)) in
      if fst r2 then r2 else
      let r3 = findMove (forkAt M N K b) (positions M N b) (- 1, snd (snd r2)) in
      if fst r3 then r3 else
      let r4 = findMove (forkAt3rd M N K b) (positions M N b) (- 1, snd (snd r3)) in
      if fst r4 then r4 else
      let r5 = findMove (blockForkAt M N K b) (positions M N b) (- 1, snd (snd r4)) in
      if fst r5 then r5 else
      findMove (blockForkAt3rd M N K b) (positions M N b) (- 1, snd (snd r5)))"

text \<open>\<^verbatim>\<open>basicSolve\<close> with its fourth loop removed.\<close>

definition basicSolveSkip4 :: "int \<Rightarrow> int \<Rightarrow> int \<Rightarrow> board_t \<Rightarrow> pos \<Rightarrow> bool \<times> pos" where
  "basicSolveSkip4 M N K b c =
     (let r1 = findMove (winsAt M N K b PLAYER_US) (positions M N b) (- 1, snd c) in
      if fst r1 then r1 else
      let r2 = findMove (winsAt M N K b PLAYER_THEM) (positions M N b) (- 1, snd (snd r1)) in
      if fst r2 then r2 else
      let r3 = findMove (forkAt M N K b) (positions M N b) (- 1, snd (snd r2)) in
      if fst r3 then r3 else
      let r5 = findMove (blockForkAt M N K b) (positions M N b) (- 1, snd (snd r3)) in
      if fst r5 then r5 else
      findMove (blockForkAt3rd M N K b) (positions M N b) (- 1, snd (snd r5)))"

lemma findMove_miss:
  assumes "\<not> fst (findMove P ps c)"
  shows "(\<forall>p\<in>set ps. \<not> P p) \<and> snd (findMove P ps c) = last (c # ps)"
  using assms
proof (induction ps arbitrary: c)
  case Nil
  show ?case by simp
next
  case (Cons p ps)
  from Cons.prems have np: "\<not> P p" by (auto split: if_splits)
  with Cons.prems have "\<not> fst (findMove P ps p)" by simp
  from Cons.IH[OF this] np show ?case by simp
qed

lemma findMove_none:
  assumes "\<forall>p\<in>set ps. \<not> P p"
  shows "findMove P ps c = (False, last (c # ps))"
  using assms by (induction ps arbitrary: c) simp_all

lemma findMove_again:
  assumes "\<not> fst (findMove P ps (- 1, y))"
  shows "findMove P ps (- 1, snd (snd (findMove P ps (- 1, y)))) = findMove P ps (- 1, y)"
proof -
  from findMove_miss[OF assms] have n: "\<forall>p\<in>set ps. \<not> P p"
    and l: "snd (findMove P ps (- 1, y)) = last ((- 1, y) # ps)" by simp_all
  have "findMove P ps (- 1, snd (last ((- 1, y) # ps))) = (False, last ((- 1, snd (last ((- 1, y) # ps))) # ps))"
    using n by (rule findMove_none)
  also have "\<dots> = (False, last ((- 1, y) # ps))" by simp
  also have "\<dots> = findMove P ps (- 1, y)" using n by (rule findMove_none[symmetric])
  finally show ?thesis using l by simp
qed

lemma forkAt3rd_eq: "forkAt3rd M N K b = forkAt M N K b"
  by (rule ext) (simp add: forkAt3rd_def forkAt_def)

text \<open>
  Claim C6.  The test of the fourth loop of \<^verbatim>\<open>basicSolve\<close> is the test of the third
  one (it has no third-level probe), and removing the fourth loop changes neither the
  flag nor the cursor \<^verbatim>\<open>basicSolve\<close> returns, on any board and any incoming cursor.
\<close>

theorem basicSolve_fourth_block_redundant:
  "forkAt3rd M N K b p = forkAt M N K b p
   \<and> basicSolve M N K b c = basicSolveSkip4 M N K b c"
proof
  show "forkAt3rd M N K b p = forkAt M N K b p" by (simp add: forkAt3rd_eq)
next
  define r1 where "r1 = findMove (winsAt M N K b PLAYER_US) (positions M N b) (- 1, snd c)"
  define r2 where "r2 = findMove (winsAt M N K b PLAYER_THEM) (positions M N b) (- 1, snd (snd r1))"
  define r3 where "r3 = findMove (forkAt M N K b) (positions M N b) (- 1, snd (snd r2))"
  define r4 where "r4 = findMove (forkAt3rd M N K b) (positions M N b) (- 1, snd (snd r3))"
  have r4: "\<not> fst r3 \<Longrightarrow> r4 = r3"
    unfolding r4_def r3_def forkAt3rd_eq by (rule findMove_again)
  show "basicSolve M N K b c = basicSolveSkip4 M N K b c"
  proof (cases "fst r3")
    case True
    then show ?thesis
      unfolding basicSolve_def basicSolveSkip4_def Let_def r1_def[symmetric] r2_def[symmetric] r3_def[symmetric]
      by simp
  next
    case False
    with r4 have e: "r4 = r3" by simp
    show ?thesis
      unfolding basicSolve_def basicSolveSkip4_def Let_def r1_def[symmetric] r2_def[symmetric]
        r3_def[symmetric] r4_def[symmetric] e
      using False by simp
  qed
qed

section \<open>Minimax search\<close>

text \<open>
  The two loops over the children of a node.  \<open>child p alpha\<close> is the value the
  recursive call returns for the move \<open>p\<close> under the current \<^verbatim>\<open>alpha\<close>; the loop
  state is \<^verbatim>\<open>value\<close>, the best move so far and \<^verbatim>\<open>alpha\<close>; \<^verbatim>\<open>beta\<close> is never
  assigned in the source.  The result is the state when the loop ends or breaks.
\<close>

fun maxLoop :: "(pos \<Rightarrow> int \<Rightarrow> int) \<Rightarrow> int \<Rightarrow> pos list \<Rightarrow> int \<Rightarrow> pos \<Rightarrow> int \<Rightarrow> int \<times> pos \<times> int" where
  "maxLoop child beta [] value best alpha = (value, best, alpha)"
| "maxLoop child beta (p # ps) value best alpha =
     (let nodeValue = child p alpha;
          value' = (if nodeValue > value then nodeValue else value);
          best' = (if nodeValue > value then p else best);
          alpha' = max alpha value'
      in if alpha' \<ge> beta then (value', best', alpha')
         else maxLoop child beta ps value' best' alpha')"

fun minLoop :: "(pos \<Rightarrow> int \<Rightarrow> int) \<Rightarrow> int \<Rightarrow> pos list \<Rightarrow> int \<Rightarrow> pos \<Rightarrow> int \<Rightarrow> int \<times> pos \<times> int" where
  "minLoop child beta [] value best alpha = (value, best, alpha)"
| "minLoop child beta (p # ps) value best alpha =
     (let nodeValue = child p alpha;
          value' = (if nodeValue < value then nodeValue else value);
          best' = (if nodeValue < value then p else best);
          alpha' = min alpha value'
      in if alpha' \<ge> beta then (value', best', alpha')
         else minLoop child beta ps value' best' alpha')"

text \<open>
  \<^verbatim>\<open>minimax\<close>.  The cursor \<open>c\<close> stands for \<^verbatim>\<open>*x, *y\<close>: it is returned unchanged by
  a terminal node and by a leaf, and set to the best move otherwise.  \<^verbatim>\<open>depth\<close> is a
  natural number: the program calls \<^verbatim>\<open>minimax\<close> with the result of
  \<^verbatim>\<open>calculateDepth\<close>, between 0 and 20, and every recursive call passes \<open>depth - 1\<close>
  of a depth that is not 0.  The recursive call writes its move to scratch variables the
  caller never reads; only its value is used.
\<close>

fun minimax :: "int \<Rightarrow> int \<Rightarrow> int \<Rightarrow> board_t \<Rightarrow> pos \<Rightarrow> nat \<Rightarrow> int \<Rightarrow> int \<Rightarrow> bool \<Rightarrow> int \<times> pos" where
  "minimax M N K b c depth alpha beta isMaximizePlayer =
     (let winner = checkWin M N K b in
      if winner = PLAYER_US then (EVAL_INF, c)
      else if winner = PLAYER_THEM then (EVAL_N_INF, c)
      else if winner = PLAYER_TIE then (0, c)
      else (case depth of
              0 \<Rightarrow> (evaluateBoard M N K b, c)
            | Suc d \<Rightarrow>
                if isMaximizePlayer then
                  (case maxLoop (\<lambda>p a. fst (minimax M N K (copyWithMove b PLAYER_US p) c d a beta False))
                          beta (positions M N b) EVAL_N_INF (- 1, - 1) alpha of
                     (value, best, a) \<Rightarrow> (if value < EVAL_MIN then value + 1 else value, best))
                else
                  (case minLoop (\<lambda>p a. fst (minimax M N K (copyWithMove b PLAYER_THEM p) c d a beta True))
                          beta (positions M N b) EVAL_INF (- 1, - 1) alpha of
                     (value, best, a) \<Rightarrow> (if value < EVAL_MIN then value + 1 else value, best))))"

declare minimax.simps [simp del]

subsection \<open>Search without pruning\<close>

text \<open>
  The reference the pruned search is compared with: the same recursion, the same depth
  bound and the same adjustment of losing values, but every child of every node is
  visited.  \<open>maxAll\<close> keeps the first move with the highest value, \<open>minAll\<close> the first
  move with the lowest, as the strict comparisons of \<^verbatim>\<open>minimax\<close> do.
\<close>

fun maxAll :: "(pos \<Rightarrow> int) \<Rightarrow> pos list \<Rightarrow> int \<Rightarrow> pos \<Rightarrow> int \<times> pos" where
  "maxAll child [] value best = (value, best)"
| "maxAll child (p # ps) value best =
     (if child p > value then maxAll child ps (child p) p else maxAll child ps value best)"

fun minAll :: "(pos \<Rightarrow> int) \<Rightarrow> pos list \<Rightarrow> int \<Rightarrow> pos \<Rightarrow> int \<times> pos" where
  "minAll child [] value best = (value, best)"
| "minAll child (p # ps) value best =
     (if child p < value then minAll child ps (child p) p else minAll child ps value best)"

fun fullSearch :: "int \<Rightarrow> int \<Rightarrow> int \<Rightarrow> board_t \<Rightarrow> pos \<Rightarrow> nat \<Rightarrow> bool \<Rightarrow> int \<times> pos" where
  "fullSearch M N K b c depth isMaximizePlayer =
     (let winner = checkWin M N K b in
      if winner = PLAYER_US then (EVAL_INF, c)
      else if winner = PLAYER_THEM then (EVAL_N_INF, c)
      else if winner = PLAYER_TIE then (0, c)
      else (case depth of
              0 \<Rightarrow> (evaluateBoard M N K b, c)
            | Suc d \<Rightarrow>
                if isMaximizePlayer then
                  (case maxAll (\<lambda>p. fst (fullSearch M N K (copyWithMove b PLAYER_US p) c d False))
                          (positions M N b) EVAL_N_INF (- 1, - 1) of
                     (value, best) \<Rightarrow> (if value < EVAL_MIN then value + 1 else value, best))
                else
                  (case minAll (\<lambda>p. fst (fullSearch M N K (copyWithMove b PLAYER_THEM p) c d True))
                          (positions M N b) EVAL_INF (- 1, - 1) of
                     (value, best) \<Rightarrow> (if value < EVAL_MIN then value + 1 else value, best))))"

declare fullSearch.simps [simp del]

subsection \<open>Unfolding the search\<close>

lemma maxAll_le:
  assumes "\<And>p. child p \<le> B" and "w \<le> B"
  shows "fst (maxAll child ps w best) \<le> B"
  using assms(2) by (induction ps arbitrary: w best) (simp_all add: assms(1))

lemma maxAll_ge: "w \<le> fst (maxAll child ps w best)"
proof (induction ps arbitrary: w best)
  case Nil
  show ?case by simp
next
  case (Cons p ps)
  show ?case
  proof (cases "child p > w")
    case True
    with Cons.IH[of "child p" p] show ?thesis by simp
  next
    case False
    with Cons.IH[of w best] show ?thesis by simp
  qed
qed

lemma minAll_le: "fst (minAll child ps w best) \<le> w"
proof (induction ps arbitrary: w best)
  case Nil
  show ?case by simp
next
  case (Cons p ps)
  show ?case
  proof (cases "child p < w")
    case True
    with Cons.IH[of "child p" p] show ?thesis by simp
  next
    case False
    with Cons.IH[of w best] show ?thesis by simp
  qed
qed

lemma minAll_ge:
  assumes "\<And>p. B \<le> child p" and "B \<le> w"
  shows "B \<le> fst (minAll child ps w best)"
  using assms(2) by (induction ps arbitrary: w best) (simp_all add: assms(1))

lemma maxAll_top:
  assumes "\<And>p. child p \<le> w"
  shows "maxAll child ps w best = (w, best)"
proof (induction ps)
  case Nil
  show ?case by simp
next
  case (Cons p ps)
  have "\<not> child p > w" using assms[of p] by simp
  with Cons.IH show ?case by simp
qed

lemma evaluateBoard_range:
  assumes "M \<le> 15" and "N \<le> 15"
  shows "- 7230 \<le> evaluateBoard M N K b" and "evaluateBoard M N K b \<le> 7230"
  using evaluateBoard_bound[OF assms, of K b] by linarith+


text \<open>A node is terminal when \<^verbatim>\<open>checkWin\<close> reports a winner or a tie.\<close>

definition terminal :: "int \<Rightarrow> int \<Rightarrow> int \<Rightarrow> board_t \<Rightarrow> bool" where
  "terminal M N K b =
     (checkWin M N K b = PLAYER_US \<or> checkWin M N K b = PLAYER_THEM \<or> checkWin M N K b = PLAYER_TIE)"

text \<open>The adjustment \<^verbatim>\<open>if(value < EVAL_MIN) value++\<close>.\<close>

definition decay :: "int \<Rightarrow> int" where
  "decay v = (if v < EVAL_MIN then v + 1 else v)"

lemma minimax_terminal:
  assumes "terminal M N K b"
  shows "minimax M N K b c depth alpha beta isMax =
     (if checkWin M N K b = PLAYER_US then EVAL_INF
      else if checkWin M N K b = PLAYER_THEM then EVAL_N_INF else 0, c)"
  using assms by (auto simp: minimax.simps[of M N K b c depth] terminal_def Let_def)

lemma minimax_leaf:
  assumes "\<not> terminal M N K b"
  shows "minimax M N K b c 0 alpha beta isMax = (evaluateBoard M N K b, c)"
  using assms by (simp add: minimax.simps[of M N K b c 0] terminal_def Let_def)

lemma minimax_max:
  assumes "\<not> terminal M N K b"
  shows "minimax M N K b c (Suc d) alpha beta True =
     (decay (fst (maxLoop (\<lambda>p a. fst (minimax M N K (copyWithMove b PLAYER_US p) c d a beta False))
                    beta (positions M N b) EVAL_N_INF (- 1, - 1) alpha)),
      fst (snd (maxLoop (\<lambda>p a. fst (minimax M N K (copyWithMove b PLAYER_US p) c d a beta False))
                    beta (positions M N b) EVAL_N_INF (- 1, - 1) alpha)))"
  using assms
  by (simp add: minimax.simps[of M N K b c "Suc d"] terminal_def Let_def decay_def case_prod_unfold)

lemma minimax_min:
  assumes "\<not> terminal M N K b"
  shows "minimax M N K b c (Suc d) alpha beta False =
     (decay (fst (minLoop (\<lambda>p a. fst (minimax M N K (copyWithMove b PLAYER_THEM p) c d a beta True))
                    beta (positions M N b) EVAL_INF (- 1, - 1) alpha)),
      fst (snd (minLoop (\<lambda>p a. fst (minimax M N K (copyWithMove b PLAYER_THEM p) c d a beta True))
                    beta (positions M N b) EVAL_INF (- 1, - 1) alpha)))"
  using assms
  by (simp add: minimax.simps[of M N K b c "Suc d"] terminal_def Let_def decay_def case_prod_unfold)

lemma fullSearch_terminal:
  assumes "terminal M N K b"
  shows "fullSearch M N K b c depth isMax =
     (if checkWin M N K b = PLAYER_US then EVAL_INF
      else if checkWin M N K b = PLAYER_THEM then EVAL_N_INF else 0, c)"
  using assms by (auto simp: fullSearch.simps[of M N K b c depth] terminal_def Let_def)

lemma fullSearch_leaf:
  assumes "\<not> terminal M N K b"
  shows "fullSearch M N K b c 0 isMax = (evaluateBoard M N K b, c)"
  using assms by (simp add: fullSearch.simps[of M N K b c 0] terminal_def Let_def)

lemma fullSearch_max:
  assumes "\<not> terminal M N K b"
  shows "fullSearch M N K b c (Suc d) True =
     (decay (fst (maxAll (\<lambda>p. fst (fullSearch M N K (copyWithMove b PLAYER_US p) c d False))
                    (positions M N b) EVAL_N_INF (- 1, - 1))),
      snd (maxAll (\<lambda>p. fst (fullSearch M N K (copyWithMove b PLAYER_US p) c d False))
                    (positions M N b) EVAL_N_INF (- 1, - 1)))"
  using assms
  by (simp add: fullSearch.simps[of M N K b c "Suc d"] terminal_def Let_def decay_def case_prod_unfold)

lemma fullSearch_min:
  assumes "\<not> terminal M N K b"
  shows "fullSearch M N K b c (Suc d) False =
     (decay (fst (minAll (\<lambda>p. fst (fullSearch M N K (copyWithMove b PLAYER_THEM p) c d True))
                    (positions M N b) EVAL_INF (- 1, - 1))),
      snd (minAll (\<lambda>p. fst (fullSearch M N K (copyWithMove b PLAYER_THEM p) c d True))
                    (positions M N b) EVAL_INF (- 1, - 1)))"
  using assms
  by (simp add: fullSearch.simps[of M N K b c "Suc d"] terminal_def Let_def decay_def case_prod_unfold)

lemma decay_le: "v \<le> 10000 \<Longrightarrow> decay v \<le> 10000"
  by (simp add: decay_def)

lemma fullSearch_le:
  assumes "M \<le> 15" and "N \<le> 15"
  shows "fst (fullSearch M N K b c depth isMax) \<le> 10000"
proof (cases "terminal M N K b")
  case True
  then show ?thesis by (simp add: fullSearch_terminal)
next
  case False
  note nt = False
  show ?thesis
  proof (induction depth arbitrary: b c isMax)
    case 0
    show ?case
    proof (cases "terminal M N K b")
      case True
      then show ?thesis by (simp add: fullSearch_terminal)
    next
      case False
      then show ?thesis using evaluateBoard_range(2)[OF assms, of K b] by (simp add: fullSearch_leaf)
    qed
  next
    case (Suc d)
    show ?case
    proof (cases "terminal M N K b")
      case True
      then show ?thesis by (simp add: fullSearch_terminal)
    next
      case False
      show ?thesis
      proof (cases isMax)
        case True
        have "fst (maxAll (\<lambda>p. fst (fullSearch M N K (copyWithMove b PLAYER_US p) c d False))
                 (positions M N b) EVAL_N_INF (- 1, - 1)) \<le> 10000"
          by (rule maxAll_le) (simp_all add: Suc.IH)
        then show ?thesis using True False by (simp add: fullSearch_max decay_le)
      next
        case isMin: False
        have "fst (minAll (\<lambda>p. fst (fullSearch M N K (copyWithMove b PLAYER_THEM p) c d True))
                 (positions M N b) EVAL_INF (- 1, - 1)) \<le> EVAL_INF"
          by (rule minAll_le)
        then show ?thesis using isMin False by (simp add: fullSearch_min decay_le)
      qed
    qed
  qed
qed

text \<open>
  With \<^verbatim>\<open>beta\<close> at its initial value, above every value a child can return, the loop
  of the maximizing branch breaks only after a child returned \<^verbatim>\<open>beta\<close> itself, when no
  later child can be strictly better; the loop of the minimizing branch lowers
  \<^verbatim>\<open>alpha\<close>, which starts below \<^verbatim>\<open>beta\<close>, and never breaks.
\<close>

lemma maxLoop_maxAll:
  assumes "\<And>p a. a < beta \<Longrightarrow> child p a = g p" and "\<And>p. g p \<le> beta"
    and "w \<le> beta" and "alpha < beta"
  shows "fst (maxLoop child beta ps w best alpha) = fst (maxAll g ps w best)
       \<and> fst (snd (maxLoop child beta ps w best alpha)) = snd (maxAll g ps w best)"
  using assms(3,4)
proof (induction ps arbitrary: w best alpha)
  case Nil
  show ?case by simp
next
  case (Cons p ps)
  have c: "child p alpha = g p" using Cons.prems(2) by (rule assms(1))
  define w' where "w' = (if g p > w then g p else w)"
  define best' where "best' = (if g p > w then p else best)"
  have v': "w' \<le> beta" using assms(2)[of p] Cons.prems(1) by (simp add: w'_def)
  have r: "maxAll g (p # ps) w best = maxAll g ps w' best'"
    by (simp add: w'_def best'_def)
  have step: "maxLoop child beta (p # ps) w best alpha =
      (if max alpha w' \<ge> beta then (w', best', max alpha w')
       else maxLoop child beta ps w' best' (max alpha w'))"
    by (simp add: c Let_def w'_def best'_def)
  show ?case
  proof (cases "max alpha w' \<ge> beta")
    case True
    with Cons.prems(2) v' have "w' = beta" by simp
    then have "maxAll g ps w' best' = (w', best')"
      using assms(2) by (intro maxAll_top) simp
    with True show ?thesis
      unfolding r step by simp
  next
    case False
    then have "max alpha w' < beta" by linarith
    from Cons.IH[OF v' this, of best'] False show ?thesis
      unfolding r step by simp
  qed
qed

lemma minLoop_minAll:
  assumes "\<And>p a. a < beta \<Longrightarrow> child p a = g p" and "alpha < beta"
  shows "fst (minLoop child beta ps w best alpha) = fst (minAll g ps w best)
       \<and> fst (snd (minLoop child beta ps w best alpha)) = snd (minAll g ps w best)"
  using assms(2)
proof (induction ps arbitrary: w best alpha)
  case Nil
  show ?case by simp
next
  case (Cons p ps)
  have c: "child p alpha = g p" using Cons.prems by (rule assms(1))
  define w' where "w' = (if g p < w then g p else w)"
  define best' where "best' = (if g p < w then p else best)"
  have r: "minAll g (p # ps) w best = minAll g ps w' best'"
    by (simp add: w'_def best'_def)
  have lt: "min alpha w' < beta" using Cons.prems by simp
  have nb: "\<not> min alpha w' \<ge> beta" using lt by linarith
  have "minLoop child beta (p # ps) w best alpha =
      (if min alpha w' \<ge> beta then (w', best', min alpha w')
       else minLoop child beta ps w' best' (min alpha w'))"
    by (simp add: c Let_def w'_def best'_def)
  also have "\<dots> = minLoop child beta ps w' best' (min alpha w')"
    using nb by (rule if_not_P)
  finally have step: "minLoop child beta (p # ps) w best alpha = minLoop child beta ps w' best' (min alpha w')" .
  from Cons.IH[OF lt, of w' best'] show ?case
    unfolding r step by simp
qed

lemma minimax_fullSearch:
  assumes "M \<le> 15" and "N \<le> 15" and "alpha < EVAL_INF"
  shows "minimax M N K b c depth alpha EVAL_INF isMax = fullSearch M N K b c depth isMax"
  using assms(3)
proof (induction depth arbitrary: b c alpha isMax)
  case 0
  show ?case
    by (cases "terminal M N K b")
       (simp_all add: minimax_terminal fullSearch_terminal minimax_leaf fullSearch_leaf)
next
  case (Suc d)
  let ?gU = "\<lambda>p. fst (fullSearch M N K (copyWithMove b PLAYER_US p) c d False)"
  let ?gT = "\<lambda>p. fst (fullSearch M N K (copyWithMove b PLAYER_THEM p) c d True)"
  let ?cU = "\<lambda>p a. fst (minimax M N K (copyWithMove b PLAYER_US p) c d a EVAL_INF False)"
  let ?cT = "\<lambda>p a. fst (minimax M N K (copyWithMove b PLAYER_THEM p) c d a EVAL_INF True)"
  have mx: "fst (maxLoop ?cU EVAL_INF (positions M N b) EVAL_N_INF (- 1, - 1) alpha)
        = fst (maxAll ?gU (positions M N b) EVAL_N_INF (- 1, - 1))
      \<and> fst (snd (maxLoop ?cU EVAL_INF (positions M N b) EVAL_N_INF (- 1, - 1) alpha))
        = snd (maxAll ?gU (positions M N b) EVAL_N_INF (- 1, - 1))"
  proof (rule maxLoop_maxAll)
    fix p a :: "int" and q :: pos assume "a < EVAL_INF"
    then show "?cU q a = ?gU q" by (simp only: Suc.IH)
  next
    fix p show "?gU p \<le> EVAL_INF" using fullSearch_le[OF assms(1,2)] by simp
  qed (use Suc.prems in simp_all)
  have mn: "fst (minLoop ?cT EVAL_INF (positions M N b) EVAL_INF (- 1, - 1) alpha)
        = fst (minAll ?gT (positions M N b) EVAL_INF (- 1, - 1))
      \<and> fst (snd (minLoop ?cT EVAL_INF (positions M N b) EVAL_INF (- 1, - 1) alpha))
        = snd (minAll ?gT (positions M N b) EVAL_INF (- 1, - 1))"
  proof (rule minLoop_minAll)
    fix a :: "int" and q :: pos assume "a < EVAL_INF"
    then show "?cT q a = ?gT q" by (simp only: Suc.IH)
  qed (use Suc.prems in simp_all)
  show ?case
  proof (cases "terminal M N K b")
    case True
    then show ?thesis by (simp add: minimax_terminal fullSearch_terminal)
  next
    case False
    show ?thesis
    proof (cases isMax)
      case True
      have "minimax M N K b c (Suc d) alpha EVAL_INF True = fullSearch M N K b c (Suc d) True"
        unfolding minimax_max[OF False] fullSearch_max[OF False] using mx by simp
      with True show ?thesis by simp
    next
      case isMin: False
      have "minimax M N K b c (Suc d) alpha EVAL_INF False = fullSearch M N K b c (Suc d) False"
        unfolding minimax_min[OF False] fullSearch_min[OF False] using mn by simp
      with isMin show ?thesis by simp
    qed
  qed
qed


text \<open>
  Claim C3.  Started with the window \<open>(EVAL_N_INF, EVAL_INF)\<close> on a board of at most
  15 by 15, \<^verbatim>\<open>minimax\<close> returns the value and the move of the search without pruning,
  for every board, every depth and either player to move.
\<close>

theorem minimax_equals_unpruned:
  assumes "M \<le> 15" and "N \<le> 15"
  shows "minimax M N K b c depth EVAL_N_INF EVAL_INF isMax = fullSearch M N K b c depth isMax"
  using assms by (rule minimax_fullSearch) simp

theorem minimax_equals_unpruned_witness:
  "(3::int) \<le> 15
   \<and> minimax 3 3 3 (boardOf [((0, 0), PLAYER_US), ((1, 0), PLAYER_US), ((0, 1), PLAYER_THEM), ((1, 1), PLAYER_THEM)])
         (0, 0) 2 EVAL_N_INF EVAL_INF False = (- 9999, (2, 1))
   \<and> fullSearch 3 3 3 (boardOf [((0, 0), PLAYER_US), ((1, 0), PLAYER_US), ((0, 1), PLAYER_THEM), ((1, 1), PLAYER_THEM)])
         (0, 0) 2 False = (- 9999, (2, 1))"
proof -
  let ?b = "boardOf [((0, 0), PLAYER_US), ((1, 0), PLAYER_US), ((0, 1), PLAYER_THEM), ((1, 1), PLAYER_THEM)]"
  have h: "(3::int) \<le> 15" by simp
  have v: "fullSearch 3 3 3 ?b (0, 0) 2 False = (- 9999, (2, 1))" by code_simp
  from minimax_equals_unpruned[OF h h, of 3 ?b "(0, 0)" 2 False] v h show ?thesis by simp
qed

text \<open>
  Claim C4.  The minimizing branch of \<^verbatim>\<open>minimax\<close> does not lower \<^verbatim>\<open>beta\<close>: it assigns
  \<^verbatim>\<open>alpha = min(alpha, value)\<close>.  On the 3 by 3 board with our stone at \<open>(0, 0)\<close> and
  theirs at \<open>(1, 1)\<close>, searched to depth 2, the first two moves of the root return
  \<open>-8\<close> and \<open>-4\<close>, so the third move \<open>(0, 1)\<close> is searched with \<^verbatim>\<open>alpha = -4\<close>.  In that
  minimizing node the second reply is worth \<open>-5\<close>: the loop state after it has
  \<^verbatim>\<open>alpha = -5\<close> below the unchanged \<^verbatim>\<open>beta = 10000\<close>, the loop goes on, and the node
  returns the fourth reply \<open>(0, 2)\<close> with \<open>-8\<close>.
\<close>

theorem minimax_min_branch_lowers_alpha:
  "fst (minimax 3 3 3 (copyWithMove (boardOf [((0, 0), PLAYER_US), ((1, 1), PLAYER_THEM)]) PLAYER_US (1, 0))
          (0, 0) 1 (- 10000) 10000 False) = - 8
   \<and> fst (minimax 3 3 3 (copyWithMove (boardOf [((0, 0), PLAYER_US), ((1, 1), PLAYER_THEM)]) PLAYER_US (2, 0))
          (0, 0) 1 (- 8) 10000 False) = - 4
   \<and> minLoop (\<lambda>p a. fst (minimax 3 3 3
            (copyWithMove (copyWithMove (boardOf [((0, 0), PLAYER_US), ((1, 1), PLAYER_THEM)]) PLAYER_US (0, 1))
               PLAYER_THEM p) (0, 0) 0 a 10000 True))
        10000 [(1, 0), (2, 0)] EVAL_INF (- 1, - 1) (- 4) = (- 5, (2, 0), - 5)
   \<and> minimax 3 3 3 (copyWithMove (boardOf [((0, 0), PLAYER_US), ((1, 1), PLAYER_THEM)]) PLAYER_US (0, 1))
          (0, 0) 1 (- 4) 10000 False = (- 8, (0, 2))"
  by code_simp

text \<open>
  Claim C5.  On a board of at most 15 by 15 the evaluator stays between \<open>EVAL_MIN\<close> and
  \<open>EVAL_MAX\<close>, hence strictly between the two sentinels; a node where \<^verbatim>\<open>checkWin\<close>
  reports a winner is worth a sentinel, strictly outside every value of the evaluator,
  and a tied node is worth 0.
\<close>

theorem evaluateBoard_within_sentinels:
  assumes "M \<le> 15" and "N \<le> 15"
  shows "EVAL_MIN \<le> evaluateBoard M N K b \<and> evaluateBoard M N K b \<le> EVAL_MAX
       \<and> EVAL_N_INF < evaluateBoard M N K b \<and> evaluateBoard M N K b < EVAL_INF
       \<and> (checkWin M N K t = PLAYER_US \<longrightarrow>
            fst (minimax M N K t c depth alpha beta isMax) = EVAL_INF
            \<and> evaluateBoard M N K b < fst (minimax M N K t c depth alpha beta isMax))
       \<and> (checkWin M N K t = PLAYER_THEM \<longrightarrow>
            fst (minimax M N K t c depth alpha beta isMax) = EVAL_N_INF
            \<and> fst (minimax M N K t c depth alpha beta isMax) < evaluateBoard M N K b)
       \<and> (checkWin M N K t = PLAYER_TIE \<longrightarrow> fst (minimax M N K t c depth alpha beta isMax) = 0)"
proof -
  note r = evaluateBoard_range[OF assms, of K b]
  have t: "terminal M N K t \<Longrightarrow> minimax M N K t c depth alpha beta isMax =
     (if checkWin M N K t = PLAYER_US then EVAL_INF
      else if checkWin M N K t = PLAYER_THEM then EVAL_N_INF else 0, c)"
    by (rule minimax_terminal)
  show ?thesis using r t by (auto simp: terminal_def)
qed

theorem evaluateBoard_within_sentinels_witness:
  "(3::int) \<le> 15
   \<and> evaluateBoard 3 3 3 (boardOf [((0, 0), PLAYER_US), ((1, 1), PLAYER_THEM)]) = - 3
   \<and> checkWin 3 3 3 (boardOf [((0, 0), PLAYER_US), ((1, 0), PLAYER_US), ((2, 0), PLAYER_US)]) = PLAYER_US
   \<and> fst (minimax 3 3 3 (boardOf [((0, 0), PLAYER_US), ((1, 0), PLAYER_US), ((2, 0), PLAYER_US)])
            (0, 0) 2 EVAL_N_INF EVAL_INF True) = EVAL_INF
   \<and> evaluateBoard 3 3 3 (boardOf [((0, 0), PLAYER_US), ((1, 1), PLAYER_THEM)])
       < fst (minimax 3 3 3 (boardOf [((0, 0), PLAYER_US), ((1, 0), PLAYER_US), ((2, 0), PLAYER_US)])
            (0, 0) 2 EVAL_N_INF EVAL_INF True)"
proof -
  let ?b = "boardOf [((0, 0), PLAYER_US), ((1, 1), PLAYER_THEM)]"
  let ?t = "boardOf [((0, 0), PLAYER_US), ((1, 0), PLAYER_US), ((2, 0), PLAYER_US)]"
  have h: "(3::int) \<le> 15" by simp
  have w: "checkWin 3 3 3 ?t = PLAYER_US" by code_simp
  have v: "evaluateBoard 3 3 3 ?b = - 3" by code_simp
  from evaluateBoard_within_sentinels[OF h h, of 3 ?b ?t "(0, 0)" 2 EVAL_N_INF EVAL_INF True] w
  have "fst (minimax 3 3 3 ?t (0, 0) 2 EVAL_N_INF EVAL_INF True) = EVAL_INF
      \<and> evaluateBoard 3 3 3 ?b < fst (minimax 3 3 3 ?t (0, 0) 2 EVAL_N_INF EVAL_INF True)"
    by blast
  with h w v show ?thesis by blast
qed

section \<open>What the win detector computes\<close>

text \<open>
  The two counters of a line are determined by the cells read so far: each is the length
  of the longest suffix of those cells that carries the player's bit.
\<close>

definition trail :: "('a \<Rightarrow> bool) \<Rightarrow> 'a list \<Rightarrow> nat" where
  "trail P xs = length (takeWhile P (rev xs))"

lemma trail_snoc: "trail P (xs @ [x]) = (if P x then Suc (trail P xs) else 0)"
  by (simp add: trail_def)

lemma trail_ge_iff:
  "k \<le> trail P xs \<longleftrightarrow> k \<le> length xs \<and> (\<forall>j<k. P (xs ! (length xs - Suc j)))"
proof
  assume k: "k \<le> trail P xs"
  have le: "trail P xs \<le> length xs"
    using length_takeWhile_le[of P "rev xs"] by (simp add: trail_def)
  have "P (xs ! (length xs - Suc j))" if "j < k" for j
  proof -
    from that k have j: "j < length (takeWhile P (rev xs))" by (simp add: trail_def)
    then have "takeWhile P (rev xs) ! j \<in> set (takeWhile P (rev xs))" by (rule nth_mem)
    then have "P (takeWhile P (rev xs) ! j)" by (rule set_takeWhileD[THEN conjunct2])
    moreover have "takeWhile P (rev xs) ! j = rev xs ! j" using j by (rule takeWhile_nth)
    moreover have "rev xs ! j = xs ! (length xs - Suc j)"
      using j le by (intro rev_nth) (simp add: trail_def)
    ultimately show ?thesis by simp
  qed
  with k le show "k \<le> length xs \<and> (\<forall>j<k. P (xs ! (length xs - Suc j)))" by simp
next
  assume a: "k \<le> length xs \<and> (\<forall>j<k. P (xs ! (length xs - Suc j)))"
  have "k \<le> length (takeWhile P (rev xs))"
  proof (rule length_takeWhile_less_P_nth)
    fix i assume "i < k"
    with a have "P (xs ! (length xs - Suc i))" and "i < length xs" by simp_all
    then show "P (rev xs ! i)" by (simp add: rev_nth)
  next
    show "k \<le> length (rev xs)" using a by simp
  qed
  then show "k \<le> trail P xs" by (simp add: trail_def)
qed

text \<open>
  A scan event is a line together with an index into it.  The event is a hit for a player
  when, after the cell at that index has been counted, the player's counter has reached
  \<open>K\<close>, which is the test \<^verbatim>\<open>count >= K\<close> of the source.
\<close>

definition hit :: "int \<Rightarrow> board_t \<Rightarrow> player_t \<Rightarrow> pos list \<times> nat \<Rightarrow> bool" where
  "hit K b player e =
     (case e of (l, t) \<Rightarrow> K \<le> int (trail (\<lambda>p. b p AND player \<noteq> 0) (take (Suc t) l)))"

lemma hit_iff:
  assumes "1 \<le> K" and "t < length l"
  shows "hit K b player (l, t) \<longleftrightarrow>
           nat K \<le> Suc t \<and> (\<forall>j<nat K. b (l ! (t - j)) AND player \<noteq> 0)"
proof -
  have len: "length (take (Suc t) l) = Suc t" using assms(2) by simp
  have "hit K b player (l, t) \<longleftrightarrow> nat K \<le> trail (\<lambda>p. b p AND player \<noteq> 0) (take (Suc t) l)"
    using assms(1) by (simp add: hit_def nat_le_iff)
  also have "\<dots> \<longleftrightarrow> nat K \<le> Suc t \<and>
      (\<forall>j<nat K. b (take (Suc t) l ! (Suc t - Suc j)) AND player \<noteq> 0)"
    unfolding trail_ge_iff len ..
  also have "\<dots> \<longleftrightarrow> nat K \<le> Suc t \<and> (\<forall>j<nat K. b (l ! (t - j)) AND player \<noteq> 0)"
    by auto
  finally show ?thesis .
qed

text \<open>
  The detector returns at the first event that is a hit for either player, and tests ours
  before theirs.
\<close>

definition hitResult :: "int \<Rightarrow> board_t \<Rightarrow> (pos list \<times> nat) option \<Rightarrow> player_t option" where
  "hitResult K b r =
     (case r of None \<Rightarrow> None
      | Some e \<Rightarrow> Some (if hit K b PLAYER_US e then PLAYER_US else PLAYER_THEM))"

definition hitAny :: "int \<Rightarrow> board_t \<Rightarrow> pos list \<times> nat \<Rightarrow> bool" where
  "hitAny K b e = (hit K b PLAYER_US e \<or> hit K b PLAYER_THEM e)"

lemma countRun_find:
  "countRun K b rest (int (trail (\<lambda>p. b p AND PLAYER_US \<noteq> 0) pre))
                     (int (trail (\<lambda>p. b p AND PLAYER_THEM \<noteq> 0) pre))
   = hitResult K b (find (hitAny K b)
       (map (\<lambda>t. (pre @ rest, t)) [length pre..<length pre + length rest]))"
proof (induction rest arbitrary: pre)
  case Nil
  show ?case by (simp add: hitResult_def)
next
  case (Cons p ps)
  let ?l = "pre @ p # ps"
  have up: "[length pre..<length pre + length (p # ps)]
      = length pre # [length (pre @ [p])..<length (pre @ [p]) + length ps]"
  proof -
    have "[length pre..<length pre + length (p # ps)] = length pre # [Suc (length pre)..<length pre + length (p # ps)]"
      by (rule upt_conv_Cons) simp
    moreover have "Suc (length pre) = length (pre @ [p])" by simp
    moreover have "length pre + length (p # ps) = length (pre @ [p]) + length ps" by simp
    ultimately show ?thesis by (simp only:)
  qed
  have tk: "take (Suc (length pre)) ?l = pre @ [p]" by simp
  have hU: "hit K b PLAYER_US (?l, length pre)
      \<longleftrightarrow> K \<le> (if b p AND PLAYER_US \<noteq> 0 then int (trail (\<lambda>p. b p AND PLAYER_US \<noteq> 0) pre) + 1 else 0)"
    unfolding hit_def prod.case tk trail_snoc by (simp add: add.commute)
  have hT: "hit K b PLAYER_THEM (?l, length pre)
      \<longleftrightarrow> K \<le> (if b p AND PLAYER_THEM \<noteq> 0 then int (trail (\<lambda>p. b p AND PLAYER_THEM \<noteq> 0) pre) + 1 else 0)"
    unfolding hit_def prod.case tk trail_snoc by (simp add: add.commute)
  have IH: "countRun K b ps (int (trail (\<lambda>p. b p AND PLAYER_US \<noteq> 0) (pre @ [p])))
                     (int (trail (\<lambda>p. b p AND PLAYER_THEM \<noteq> 0) (pre @ [p])))
   = hitResult K b (find (hitAny K b)
       (map (\<lambda>t. (?l, t)) [length (pre @ [p])..<length (pre @ [p]) + length ps]))"
    using Cons.IH[of "pre @ [p]"] by simp
  have c1: "int (trail (\<lambda>p. b p AND PLAYER_US \<noteq> 0) (pre @ [p]))
      = (if b p AND PLAYER_US \<noteq> 0 then int (trail (\<lambda>p. b p AND PLAYER_US \<noteq> 0) pre) + 1 else 0)"
    by (simp add: trail_snoc)
  have c2: "int (trail (\<lambda>p. b p AND PLAYER_THEM \<noteq> 0) (pre @ [p]))
      = (if b p AND PLAYER_THEM \<noteq> 0 then int (trail (\<lambda>p. b p AND PLAYER_THEM \<noteq> 0) pre) + 1 else 0)"
    by (simp add: trail_snoc)
  define c1 where "c1 = (if b p AND PLAYER_US \<noteq> 0 then int (trail (\<lambda>p. b p AND PLAYER_US \<noteq> 0) pre) + 1 else 0)"
  define c2 where "c2 = (if b p AND PLAYER_THEM \<noteq> 0 then int (trail (\<lambda>p. b p AND PLAYER_THEM \<noteq> 0) pre) + 1 else 0)"
  define rest' where "rest' = map (\<lambda>t. (?l, t)) [length (pre @ [p])..<length (pre @ [p]) + length ps]"
  have lhs: "countRun K b (p # ps) (int (trail (\<lambda>p. b p AND PLAYER_US \<noteq> 0) pre))
                     (int (trail (\<lambda>p. b p AND PLAYER_THEM \<noteq> 0) pre))
      = (if c1 \<ge> K then Some PLAYER_US else if c2 \<ge> K then Some PLAYER_THEM else countRun K b ps c1 c2)"
    unfolding c1_def c2_def countRun.simps Let_def ..
  have rhs: "map (\<lambda>t. (?l, t)) [length pre..<length pre + length (p # ps)] = (?l, length pre) # rest'"
    unfolding up rest'_def by simp
  have IH': "countRun K b ps c1 c2 = hitResult K b (find (hitAny K b) rest')"
    using IH unfolding c1 c2 c1_def c2_def rest'_def .
  have hU': "hit K b PLAYER_US (?l, length pre) \<longleftrightarrow> K \<le> c1" unfolding c1_def by (rule hU)
  have hT': "hit K b PLAYER_THEM (?l, length pre) \<longleftrightarrow> K \<le> c2" unfolding c2_def by (rule hT)
  have hA: "hitAny K b (?l, length pre) \<longleftrightarrow> K \<le> c1 \<or> K \<le> c2"
    by (simp only: hitAny_def hU' hT')
  show ?case
    unfolding lhs rhs IH'
    by (simp add: hitResult_def hA hU' del: PLAYER_US_def PLAYER_THEM_def)
qed


text \<open>
  The events in the order the four loops of \<^verbatim>\<open>checkWin\<close> visit them: rows, columns,
  down-left diagonals, down-right diagonals, each line from its first cell to its last.
\<close>

definition lineEvents :: "pos list \<Rightarrow> (pos list \<times> nat) list" where
  "lineEvents l = map (\<lambda>t. (l, t)) [0..<length l]"

definition events :: "pos list list \<Rightarrow> (pos list \<times> nat) list" where
  "events ls = concat (map lineEvents ls)"

definition scanOrder :: "int \<Rightarrow> int \<Rightarrow> pos list list" where
  "scanOrder M N = rowLines M N @ colLines M N @ downLeftLines M N @ downRightLines M N"

definition scanEvents :: "int \<Rightarrow> int \<Rightarrow> (pos list \<times> nat) list" where
  "scanEvents M N = events (scanOrder M N)"

lemma countRun_line: "countRun K b l 0 0 = hitResult K b (find (hitAny K b) (lineEvents l))"
  using countRun_find[of K b l "[]"] by (simp add: trail_def lineEvents_def)

lemma find_app:
  "find P (xs @ ys) = (case find P xs of None \<Rightarrow> find P ys | Some x \<Rightarrow> Some x)"
  by (induction xs) simp_all

lemma scanLines_find: "scanLines K b ls = hitResult K b (find (hitAny K b) (events ls))"
proof (induction ls)
  case Nil
  show ?case by (simp add: events_def hitResult_def)
next
  case (Cons l ls)
  have e: "events (l # ls) = lineEvents l @ events ls" by (simp add: events_def)
  show ?case
    unfolding e find_app scanLines.simps countRun_line Cons.IH
    by (simp add: hitResult_def split: option.splits)
qed

lemma countRunE_countRun:
  "countRunE K b l c1 c2 h =
     (case countRun K b l c1 c2 of Some w \<Rightarrow> Inl w
      | None \<Rightarrow> Inr (h \<or> (\<exists>p\<in>set l. b p = 0)))"
proof (induction l arbitrary: c1 c2 h)
  case Nil
  show ?case by simp
next
  case (Cons p l)
  show ?case
    unfolding countRunE.simps countRun.simps Let_def Cons.IH
    by (auto split: option.splits)
qed

lemma scanLinesE_scanLines:
  "scanLinesE K b ls h =
     (case scanLines K b ls of Some w \<Rightarrow> Inl w
      | None \<Rightarrow> Inr (h \<or> (\<exists>l\<in>set ls. \<exists>p\<in>set l. b p = 0)))"
proof (induction ls arbitrary: h)
  case Nil
  show ?case by simp
next
  case (Cons l ls)
  show ?case
    unfolding scanLinesE.simps scanLines.simps countRunE_countRun Cons.IH
    by (auto split: option.splits)
qed

lemma scanLines_app:
  "scanLines K b (xs @ ys) = (case scanLines K b xs of Some w \<Rightarrow> Some w | None \<Rightarrow> scanLines K b ys)"
  by (induction xs) (simp_all split: option.splits)

text \<open>
  The last block also looks for an empty cell; its diagonals cover the active region, so
  \<^verbatim>\<open>hasEmpty\<close> is set exactly when the region has an empty cell.
\<close>

lemma downRightLines_cover:
  assumes "inRegion M N p"
  shows "\<exists>l\<in>set (downRightLines M N). p \<in> set l"
proof -
  obtain x y where p: "p = (x, y)" by (cases p)
  from assms have r: "0 \<le> x" "x < M" "0 \<le> y" "y < N" by (simp_all add: inRegion_def p)
  define i where "i = x - y + N - 1"
  have i: "0 \<le> i" "i \<le> M + N - 1 - 1" using r by (simp_all add: i_def)
  have "(x, y) \<in> set (downRightLine M N i)"
    unfolding downRightLine_def Let_def set_map set_upto
  proof (rule image_eqI[where x = y])
    show "(x, y) = (i + y - N + 1, y)" by (simp add: i_def)
    show "y \<in> {(if i < N then N - i - 1 else 0)..(if i < M then N else M + N - i - 1) - 1}"
      using r by (auto simp: i_def)
  qed
  moreover have "downRightLine M N i \<in> set (downRightLines M N)"
    using i by (simp add: downRightLines_def)
  ultimately show ?thesis unfolding p by blast
qed

lemma downRightLines_exists:
  "(\<exists>l\<in>set (downRightLines M N). \<exists>p\<in>set l. P p) \<longleftrightarrow> (\<exists>p. inRegion M N p \<and> P p)"
  using downRightLines_cover downRightLines_region by blast

definition anyEmpty :: "int \<Rightarrow> int \<Rightarrow> board_t \<Rightarrow> bool" where
  "anyEmpty M N b = (\<exists>p. inRegion M N p \<and> b p = PLAYER_NONE)"

text \<open>
  \<^verbatim>\<open>checkWin\<close> is a search for the first hit in scan order.
\<close>

lemma checkWin_find:
  "checkWin M N K b =
     (case hitResult K b (find (hitAny K b) (scanEvents M N)) of
        Some w \<Rightarrow> w
      | None \<Rightarrow> if anyEmpty M N b then PLAYER_NONE else PLAYER_TIE)"
proof -
  have "scanLines K b (scanOrder M N) =
     (case scanLines K b (rowLines M N) of Some w \<Rightarrow> Some w | None \<Rightarrow>
      (case scanLines K b (colLines M N) of Some w \<Rightarrow> Some w | None \<Rightarrow>
       (case scanLines K b (downLeftLines M N) of Some w \<Rightarrow> Some w | None \<Rightarrow>
         scanLines K b (downRightLines M N))))"
    by (simp add: scanOrder_def scanLines_app split: option.splits)
  moreover have "anyEmpty M N b \<longleftrightarrow> (\<exists>l\<in>set (downRightLines M N). \<exists>p\<in>set l. b p = 0)"
    by (simp add: anyEmpty_def downRightLines_exists)
  ultimately show ?thesis
    unfolding scanEvents_def scanLines_find[symmetric] checkWin_def scanLinesE_scanLines
    by (simp split: option.splits)
qed

subsection \<open>Runs on the board and runs along scanned lines\<close>

text \<open>
  A family of lines that covers the active region, each line a maximal segment of the
  region in one direction, contains \<open>K\<close> consecutive cells with a property exactly when
  the region contains \<open>K\<close> cells in that direction with the property.
\<close>

lemma family_runs:
  fixes g :: "int \<Rightarrow> int \<Rightarrow> pos" and lo hi :: "int \<Rightarrow> int" and ids :: "int list"
    and Q :: "pos \<Rightarrow> bool"
  assumes K: "1 \<le> K"
    and shift: "\<And>i u j. g i (u + j) = (fst (g i u) + j * dx, snd (g i u) + j * dy)"
    and inj: "\<And>i u i' u'. g i u = g i' u' \<Longrightarrow> i = i' \<and> u = u'"
    and cover: "\<And>p. inRegion M N p \<Longrightarrow> \<exists>i\<in>set ids. \<exists>u. lo i \<le> u \<and> u \<le> hi i \<and> p = g i u"
    and inside: "\<And>i u. i \<in> set ids \<Longrightarrow> lo i \<le> u \<Longrightarrow> u \<le> hi i \<Longrightarrow> inRegion M N (g i u)"
  shows "(\<exists>x y. \<forall>j. 0 \<le> j \<and> j < K \<longrightarrow> inRegion M N (x + j * dx, y + j * dy) \<and> Q (x + j * dx, y + j * dy))
     \<longleftrightarrow> (\<exists>l\<in>set (map (\<lambda>i. map (g i) [lo i..hi i]) ids).
            \<exists>t<length l. nat K \<le> Suc t \<and> (\<forall>j<nat K. Q (l ! (t - j))))"
    (is "?geo \<longleftrightarrow> ?scan")
proof
  assume ?geo
  then obtain x y where run: "\<And>j. 0 \<le> j \<Longrightarrow> j < K \<Longrightarrow>
      inRegion M N (x + j * dx, y + j * dy) \<and> Q (x + j * dx, y + j * dy)" by blast
  from run[of 0] K have "inRegion M N (x, y)" by simp
  from cover[OF this] obtain i u0 where i: "i \<in> set ids" and u0: "lo i \<le> u0" "u0 \<le> hi i"
    and xy: "(x, y) = g i u0" by blast
  have cell: "(x + j * dx, y + j * dy) = g i (u0 + j)" for j
    using shift[of i u0 j] xy[symmetric] by simp
  have rng: "lo i \<le> u0 + j \<and> u0 + j \<le> hi i" if "0 \<le> j" "j < K" for j
  proof -
    from run[OF that] have "inRegion M N (g i (u0 + j))" by (simp add: cell)
    from cover[OF this] obtain i' u' where "i' \<in> set ids" "lo i' \<le> u'" "u' \<le> hi i'"
      and "g i (u0 + j) = g i' u'" by blast
    with inj[of i "u0 + j" i' u'] show ?thesis by simp
  qed
  from rng[of "K - 1"] K have top: "u0 + K - 1 \<le> hi i" by simp
  define l where "l = map (g i) [lo i..hi i]"
  define t where "t = nat (u0 + K - 1 - lo i)"
  have len: "length l = nat (hi i - lo i + 1)" by (simp add: l_def)
  have t: "t < length l" using top u0 K by (simp add: t_def len)
  have nth: "l ! k = g i (lo i + int k)" if "k < length l" for k
    using that unfolding l_def by (simp add: len[unfolded l_def])
  have kt: "nat K \<le> Suc t" using u0 K by (simp add: t_def)
  have "Q (l ! (t - j))" if "j < nat K" for j
  proof -
    have "t - j < length l" using t by simp
    then have "l ! (t - j) = g i (lo i + int (t - j))" by (rule nth)
    also have "lo i + int (t - j) = u0 + (K - 1 - int j)"
      using that kt u0 K by (simp add: t_def)
    also have "g i (u0 + (K - 1 - int j)) = (x + (K - 1 - int j) * dx, y + (K - 1 - int j) * dy)"
      by (simp add: cell)
    finally show ?thesis using run[of "K - 1 - int j"] that by simp
  qed
  with t kt have "\<exists>t<length l. nat K \<le> Suc t \<and> (\<forall>j<nat K. Q (l ! (t - j)))" by blast
  moreover have "l \<in> set (map (\<lambda>i. map (g i) [lo i..hi i]) ids)" using i by (simp add: l_def)
  ultimately show ?scan by blast
next
  assume ?scan
  then obtain i t where i: "i \<in> set ids" and t: "t < length (map (g i) [lo i..hi i])"
    and kt: "nat K \<le> Suc t" and q: "\<And>j. j < nat K \<Longrightarrow> Q (map (g i) [lo i..hi i] ! (t - j))"
    by auto
  define l where "l = map (g i) [lo i..hi i]"
  have len: "length l = nat (hi i - lo i + 1)" by (simp add: l_def)
  have tl: "t < length l" using t by (simp add: l_def)
  have nth: "l ! k = g i (lo i + int k)" if "k < length l" for k
    using that unfolding l_def by (simp add: len[unfolded l_def])
  define u0 where "u0 = lo i + int t - (K - 1)"
  have u0: "lo i \<le> u0" using kt K by (simp add: u0_def)
  have "inRegion M N (fst (g i u0) + j * dx, snd (g i u0) + j * dy)
      \<and> Q (fst (g i u0) + j * dx, snd (g i u0) + j * dy)" if j: "0 \<le> j" "j < K" for j
  proof -
    have c: "(fst (g i u0) + j * dx, snd (g i u0) + j * dy) = g i (u0 + j)"
      by (rule shift[symmetric])
    define j' where "j' = nat (K - 1 - j)"
    have j': "j' < nat K" using j K by (simp add: j'_def)
    have e: "u0 + j = lo i + int (t - j')" using j kt K by (simp add: u0_def j'_def)
    have "t - j' < length l" using tl by simp
    then have n: "l ! (t - j') = g i (u0 + j)" unfolding e by (rule nth)
    have hi: "u0 + j \<le> hi i" using tl unfolding e len by simp
    have lo: "lo i \<le> u0 + j" using u0 j by simp
    have "inRegion M N (g i (u0 + j))" using i lo hi by (rule inside)
    moreover have "Q (g i (u0 + j))" using q[OF j'] unfolding l_def[symmetric] n .
    ultimately show ?thesis unfolding c by simp
  qed
  then show ?geo by blast
qed

text \<open>
  \<open>runFrom\<close> is a run of \<open>K\<close> stones of a player inside the active region, starting at some
  cell and advancing by \<open>(dx, dy)\<close>; \<open>stoneRun\<close> is a run along a row, a column or
  either diagonal.  \<open>completesAt\<close> says that the \<open>K\<close> cells of a line ending at an index
  all hold the player's stone: the scan completes a run of the player there.
\<close>

definition runFrom :: "int \<Rightarrow> int \<Rightarrow> int \<Rightarrow> board_t \<Rightarrow> player_t \<Rightarrow> int \<Rightarrow> int \<Rightarrow> bool" where
  "runFrom M N K b player dx dy =
     (\<exists>x y. \<forall>j. 0 \<le> j \<and> j < K \<longrightarrow>
        inRegion M N (x + j * dx, y + j * dy) \<and> b (x + j * dx, y + j * dy) = player)"

definition stoneRun :: "int \<Rightarrow> int \<Rightarrow> int \<Rightarrow> board_t \<Rightarrow> player_t \<Rightarrow> bool" where
  "stoneRun M N K b player =
     (runFrom M N K b player 1 0 \<or> runFrom M N K b player 0 1
      \<or> runFrom M N K b player (- 1) 1 \<or> runFrom M N K b player 1 1)"

definition completesAt :: "int \<Rightarrow> board_t \<Rightarrow> player_t \<Rightarrow> pos list \<times> nat \<Rightarrow> bool" where
  "completesAt K b player e =
     (case e of (l, t) \<Rightarrow> nat K \<le> Suc t \<and> (\<forall>j<nat K. b (l ! (t - j)) = player))"

definition lineRun :: "int \<Rightarrow> board_t \<Rightarrow> player_t \<Rightarrow> pos list list \<Rightarrow> bool" where
  "lineRun K b player ls = (\<exists>l\<in>set ls. \<exists>t<length l. completesAt K b player (l, t))"

lemma rows_runs:
  assumes "1 \<le> K"
  shows "runFrom M N K b player 1 0 \<longleftrightarrow> lineRun K b player (rowLines M N)"
proof -
  have e: "rowLines M N = map (\<lambda>i. map (\<lambda>u. (u, i)) [0..M - 1]) [0..N - 1]"
    by (simp add: rowLines_def)
  have cover: "\<exists>i\<in>set [0..N - 1]. \<exists>u. 0 \<le> u \<and> u \<le> M - 1 \<and> p = (u, i)"
    if "inRegion M N p" for p
    using that by (cases p) (simp add: inRegion_def)
  have inside: "inRegion M N (u, i)" if "i \<in> set [0..N - 1]" "0 \<le> u" "u \<le> M - 1" for i u
    using that by (simp add: inRegion_def)
  show ?thesis
    unfolding runFrom_def lineRun_def completesAt_def prod.case e
  proof (rule family_runs[where g = "\<lambda>i u. (u, i)" and lo = "\<lambda>i. 0" and hi = "\<lambda>i. M - 1"
        and ids = "[0..N - 1]" and dx = 1 and dy = 0 and K = K and M = M and N = N
        and Q = "\<lambda>p. b p = player", OF assms])
    show "\<And>(i::int) (u::int) (j::int). (u + j, i) = (fst (u, i) + j * 1, snd (u, i) + j * 0)" by simp
    show "\<And>(i::int) (u::int) (i'::int) (u'::int). (u, i) = (u', i') \<Longrightarrow> i = i' \<and> u = u'" by simp
  qed (fact cover, fact inside)
qed

lemma cols_runs:
  assumes "1 \<le> K"
  shows "runFrom M N K b player 0 1 \<longleftrightarrow> lineRun K b player (colLines M N)"
proof -
  have e: "colLines M N = map (\<lambda>i. map (\<lambda>u. (i, u)) [0..N - 1]) [0..M - 1]"
    by (simp add: colLines_def)
  have cover: "\<exists>i\<in>set [0..M - 1]. \<exists>u. 0 \<le> u \<and> u \<le> N - 1 \<and> p = (i, u)"
    if "inRegion M N p" for p
    using that by (cases p) (simp add: inRegion_def)
  have inside: "inRegion M N (i, u)" if "i \<in> set [0..M - 1]" "0 \<le> u" "u \<le> N - 1" for i u
    using that by (simp add: inRegion_def)
  show ?thesis
    unfolding runFrom_def lineRun_def completesAt_def prod.case e
  proof (rule family_runs[where g = "\<lambda>i u. (i, u)" and lo = "\<lambda>i. 0" and hi = "\<lambda>i. N - 1"
        and ids = "[0..M - 1]" and dx = 0 and dy = 1 and K = K and M = M and N = N
        and Q = "\<lambda>p. b p = player", OF assms])
    show "\<And>(i::int) (u::int) (j::int). (i, u + j) = (fst (i, u) + j * 0, snd (i, u) + j * 1)" by simp
    show "\<And>(i::int) (u::int) (i'::int) (u'::int). (i, u) = (i', u') \<Longrightarrow> i = i' \<and> u = u'" by simp
  qed (fact cover, fact inside)
qed

lemma downLeft_runs:
  assumes "1 \<le> K"
  shows "runFrom M N K b player (- 1) 1 \<longleftrightarrow> lineRun K b player (downLeftLines M N)"
proof -
  let ?lo = "\<lambda>i. if i < M then 0 else i - M + 1"
  let ?hi = "\<lambda>i. (if i < N then i + 1 else N) - 1"
  have e: "downLeftLines M N = map (\<lambda>i. map (\<lambda>u. (i - u, u)) [?lo i..?hi i]) [0..M + N - 1 - 1]"
    by (simp add: downLeftLines_def downLeftLine_def[abs_def] Let_def)
  have cover: "\<exists>i\<in>set [0..M + N - 1 - 1]. \<exists>u. ?lo i \<le> u \<and> u \<le> ?hi i \<and> p = (i - u, u)"
    if "inRegion M N p" for p
  proof -
    obtain x y where p: "p = (x, y)" by (cases p)
    from that have r: "0 \<le> x" "x < M" "0 \<le> y" "y < N" by (simp_all add: inRegion_def p)
    have "x + y \<in> set [0..M + N - 1 - 1]" using r by simp
    moreover have "?lo (x + y) \<le> y \<and> y \<le> ?hi (x + y) \<and> p = (x + y - y, y)"
      using r by (simp add: p)
    ultimately show ?thesis by blast
  qed
  have inside: "inRegion M N (i - u, u)"
    if "i \<in> set [0..M + N - 1 - 1]" "?lo i \<le> u" "u \<le> ?hi i" for i u
    using that by (auto simp: inRegion_def split: if_splits)
  show ?thesis
    unfolding runFrom_def lineRun_def completesAt_def prod.case e
  proof (rule family_runs[where g = "\<lambda>i u. (i - u, u)" and lo = ?lo and hi = ?hi
        and ids = "[0..M + N - 1 - 1]" and dx = "- 1" and dy = 1 and K = K and M = M and N = N
        and Q = "\<lambda>p. b p = player", OF assms])
    show "\<And>(i::int) (u::int) (j::int). (i - (u + j), u + j) = (fst (i - u, u) + j * - 1, snd (i - u, u) + j * 1)"
      by (simp add: algebra_simps)
    show "\<And>(i::int) (u::int) (i'::int) (u'::int). (i - u, u) = (i' - u', u') \<Longrightarrow> i = i' \<and> u = u'" by simp
  qed (fact cover, fact inside)
qed

lemma downRight_runs:
  assumes "1 \<le> K"
  shows "runFrom M N K b player 1 1 \<longleftrightarrow> lineRun K b player (downRightLines M N)"
proof -
  let ?lo = "\<lambda>i. if i < N then N - i - 1 else 0"
  let ?hi = "\<lambda>i. (if i < M then N else M + N - i - 1) - 1"
  have e: "downRightLines M N = map (\<lambda>i. map (\<lambda>u. (i + u - N + 1, u)) [?lo i..?hi i]) [0..M + N - 1 - 1]"
    by (simp add: downRightLines_def downRightLine_def[abs_def] Let_def)
  have cover: "\<exists>i\<in>set [0..M + N - 1 - 1]. \<exists>u. ?lo i \<le> u \<and> u \<le> ?hi i \<and> p = (i + u - N + 1, u)"
    if "inRegion M N p" for p
  proof -
    obtain x y where p: "p = (x, y)" by (cases p)
    from that have r: "0 \<le> x" "x < M" "0 \<le> y" "y < N" by (simp_all add: inRegion_def p)
    have "x - y + N - 1 \<in> set [0..M + N - 1 - 1]" using r by simp
    moreover have "?lo (x - y + N - 1) \<le> y \<and> y \<le> ?hi (x - y + N - 1)
        \<and> p = (x - y + N - 1 + y - N + 1, y)"
      using r by (simp add: p)
    ultimately show ?thesis by blast
  qed
  have inside: "inRegion M N (i + u - N + 1, u)"
    if "i \<in> set [0..M + N - 1 - 1]" "?lo i \<le> u" "u \<le> ?hi i" for i u
    using that by (auto simp: inRegion_def split: if_splits)
  show ?thesis
    unfolding runFrom_def lineRun_def completesAt_def prod.case e
  proof (rule family_runs[where g = "\<lambda>i u. (i + u - N + 1, u)" and lo = ?lo and hi = ?hi
        and ids = "[0..M + N - 1 - 1]" and dx = 1 and dy = 1 and K = K and M = M and N = N
        and Q = "\<lambda>p. b p = player", OF assms])
    show "\<And>(i::int) (u::int) (j::int). (i + (u + j) - N + 1, u + j)
        = (fst (i + u - N + 1, u) + j * 1, snd (i + u - N + 1, u) + j * 1)"
      by (simp add: algebra_simps)
    show "\<And>(i::int) (u::int) (i'::int) (u'::int). (i + u - N + 1, u) = (i' + u' - N + 1, u') \<Longrightarrow> i = i' \<and> u = u'" by simp
  qed (fact cover, fact inside)
qed

lemma lineRun_app: "lineRun K b player (xs @ ys) \<longleftrightarrow> lineRun K b player xs \<or> lineRun K b player ys"
  by (auto simp: lineRun_def)

lemma stoneRun_lineRun:
  assumes "1 \<le> K"
  shows "stoneRun M N K b player \<longleftrightarrow> lineRun K b player (scanOrder M N)"
  by (simp add: stoneRun_def scanOrder_def lineRun_app rows_runs[OF assms] cols_runs[OF assms]
      downLeft_runs[OF assms] downRight_runs[OF assms])

lemma set_events: "set (events ls) = {(l, t). l \<in> set ls \<and> t < length l}"
  by (auto simp: events_def lineEvents_def)

lemma lineRun_events:
  "lineRun K b player ls \<longleftrightarrow> (\<exists>e<length (events ls). completesAt K b player (events ls ! e))"
proof -
  have "lineRun K b player ls \<longleftrightarrow> (\<exists>e\<in>set (events ls). completesAt K b player e)"
    by (auto simp: lineRun_def set_events)
  also have "\<dots> \<longleftrightarrow> (\<exists>e<length (events ls). completesAt K b player (events ls ! e))"
    by (metis in_set_conv_nth)
  finally show ?thesis .
qed

subsection \<open>The outcome of the scan\<close>

lemma scanOrder_region: "l \<in> set (scanOrder M N) \<Longrightarrow> p \<in> set l \<Longrightarrow> inRegion M N p"
  unfolding scanOrder_def
  using rowLines_region colLines_region downLeftLines_region downRightLines_region
  by (metis Un_iff set_append)

lemma bit_is_stone:
  assumes "c = 0 \<or> c = 1 \<or> c = (2::8 word)"
  shows "(c AND PLAYER_US \<noteq> 0) = (c = PLAYER_US)" and "(c AND PLAYER_THEM \<noteq> 0) = (c = PLAYER_THEM)"
  using assms by auto

lemma hit_completes:
  assumes K: "1 \<le> K" and ok: "cellsOk M N b" and e: "e \<in> set (scanEvents M N)"
    and pl: "player = PLAYER_US \<or> player = PLAYER_THEM"
  shows "hit K b player e \<longleftrightarrow> completesAt K b player e"
proof -
  obtain l t where lt: "e = (l, t)" by (cases e)
  from e have l: "l \<in> set (scanOrder M N)" and t: "t < length l"
    by (simp_all add: scanEvents_def set_events lt)
  have cell: "(b (l ! (t - j)) AND player \<noteq> 0) = (b (l ! (t - j)) = player)" for j
  proof -
    have "l ! (t - j) \<in> set l" using t by simp
    with l have "inRegion M N (l ! (t - j))" by (rule scanOrder_region)
    with ok have "b (l ! (t - j)) = 0 \<or> b (l ! (t - j)) = 1 \<or> b (l ! (t - j)) = 2"
      by (rule cellsOk_cell)
    from bit_is_stone[OF this] pl show ?thesis by (elim disjE) (simp_all only:)
  qed
  show ?thesis
    unfolding lt hit_iff[OF K t] completesAt_def prod.case cell ..
qed

lemma not_both:
  assumes "1 \<le> K" and "completesAt K b PLAYER_US e"
  shows "\<not> completesAt K b PLAYER_THEM e"
proof -
  obtain l t where lt: "e = (l, t)" by (cases e)
  from assms(1) have "0 < nat K" by simp
  with assms(2) have "b (l ! (t - 0)) = PLAYER_US" unfolding lt completesAt_def by blast
  moreover have "b (l ! (t - 0)) = PLAYER_THEM" if "completesAt K b PLAYER_THEM e"
    using that \<open>0 < nat K\<close> unfolding lt completesAt_def by blast
  ultimately show ?thesis by auto
qed

lemma first_hit:
  assumes "e < length E" and "hitAny K b (E ! e)"
  obtains i where "i \<le> e" and "find (hitAny K b) E = Some (E ! i)" and "hitAny K b (E ! i)"
    and "\<And>j. j < i \<Longrightarrow> \<not> hitAny K b (E ! j)"
proof -
  from assms have "\<exists>x. x \<in> set E \<and> hitAny K b x"
    using nth_mem by blast
  then have "find (hitAny K b) E \<noteq> None"
    by (simp only: find_None_iff not_not)
  then obtain x where x: "find (hitAny K b) E = Some x" by blast
  then obtain i where i: "i < length E" "hitAny K b (E ! i)" "x = E ! i"
    "\<forall>j<i. \<not> hitAny K b (E ! j)" unfolding find_Some_iff by blast
  have "i \<le> e"
  proof (rule ccontr)
    assume "\<not> i \<le> e"
    then have "e < i" by simp
    with i(4) assms(2) show False by blast
  qed
  with x i that show ?thesis by blast
qed

lemma checkWin_first_us:
  assumes K: "1 \<le> K" and ok: "cellsOk M N b"
    and e: "e < length (scanEvents M N)"
    and us: "completesAt K b PLAYER_US (scanEvents M N ! e)"
    and no: "\<And>e'. e' < e \<Longrightarrow> \<not> completesAt K b PLAYER_THEM (scanEvents M N ! e')"
  shows "checkWin M N K b = PLAYER_US"
proof -
  let ?E = "scanEvents M N"
  have hc: "hit K b player (?E ! k) \<longleftrightarrow> completesAt K b player (?E ! k)"
    if "k < length ?E" "player = PLAYER_US \<or> player = PLAYER_THEM" for k player
    using K ok nth_mem[OF that(1)] that(2) by (rule hit_completes)
  have "hitAny K b (?E ! e)" using us hc[OF e] by (simp add: hitAny_def)
  from first_hit[OF e this] obtain i where i: "i \<le> e"
    "find (hitAny K b) ?E = Some (?E ! i)" "hitAny K b (?E ! i)" by blast
  have il: "i < length ?E" using i(1) e by simp
  have "hit K b PLAYER_US (?E ! i)"
  proof (cases "i = e")
    case True
    with us hc[OF e] show ?thesis by simp
  next
    case False
    with i(1) have "i < e" by simp
    from no[OF this] hc[OF il] have "\<not> hit K b PLAYER_THEM (?E ! i)" by simp
    with i(3) show ?thesis by (simp add: hitAny_def)
  qed
  then show ?thesis by (simp add: checkWin_find i(2) hitResult_def)
qed

lemma checkWin_first_them:
  assumes K: "1 \<le> K" and ok: "cellsOk M N b"
    and e: "e < length (scanEvents M N)"
    and them: "completesAt K b PLAYER_THEM (scanEvents M N ! e)"
    and no: "\<And>e'. e' < e \<Longrightarrow> \<not> completesAt K b PLAYER_US (scanEvents M N ! e')"
  shows "checkWin M N K b = PLAYER_THEM"
proof -
  let ?E = "scanEvents M N"
  have hc: "hit K b player (?E ! k) \<longleftrightarrow> completesAt K b player (?E ! k)"
    if "k < length ?E" "player = PLAYER_US \<or> player = PLAYER_THEM" for k player
    using K ok nth_mem[OF that(1)] that(2) by (rule hit_completes)
  have "hitAny K b (?E ! e)" using them hc[OF e] by (simp add: hitAny_def)
  from first_hit[OF e this] obtain i where i: "i \<le> e"
    "find (hitAny K b) ?E = Some (?E ! i)" "hitAny K b (?E ! i)" by blast
  have il: "i < length ?E" using i(1) e by simp
  have "\<not> completesAt K b PLAYER_US (?E ! i)"
  proof (cases "i = e")
    case True
    with not_both[OF K, of b "?E ! e"] them show ?thesis by blast
  next
    case False
    with i(1) have "i < e" by simp
    then show ?thesis by (rule no)
  qed
  with hc[OF il] have "\<not> hit K b PLAYER_US (?E ! i)" by simp
  then show ?thesis by (simp add: checkWin_find i(2) hitResult_def)
qed

lemma stoneRun_events:
  assumes "1 \<le> K"
  shows "stoneRun M N K b player \<longleftrightarrow>
     (\<exists>e<length (scanEvents M N). completesAt K b player (scanEvents M N ! e))"
  unfolding stoneRun_lineRun[OF assms] scanEvents_def by (rule lineRun_events)

lemma checkWin_no_run:
  assumes K: "1 \<le> K" and ok: "cellsOk M N b"
    and nu: "\<not> stoneRun M N K b PLAYER_US" and nt: "\<not> stoneRun M N K b PLAYER_THEM"
  shows "checkWin M N K b = (if anyEmpty M N b then PLAYER_NONE else PLAYER_TIE)"
proof -
  let ?E = "scanEvents M N"
  have "\<not> hitAny K b e" if "e \<in> set ?E" for e
  proof -
    from that obtain k where k: "k < length ?E" "e = ?E ! k" by (metis in_set_conv_nth)
    from nu nt k have "\<not> completesAt K b PLAYER_US e" "\<not> completesAt K b PLAYER_THEM e"
      unfolding stoneRun_events[OF K] by blast+
    then show ?thesis
      using hit_completes[OF K ok that] by (simp add: hitAny_def)
  qed
  then have "find (hitAny K b) ?E = None" by (simp add: find_None_iff)
  then show ?thesis by (simp add: checkWin_find hitResult_def)
qed

text \<open>
  Claim C1.  Let \<open>K \<ge> 1\<close> and let every active cell be empty, ours or theirs.  If the scan
  completes a run of ours at some event and no run of theirs at an earlier event,
  \<^verbatim>\<open>checkWin\<close> returns \<^verbatim>\<open>PLAYER_US\<close>, and symmetrically \<^verbatim>\<open>PLAYER_THEM\<close>.  The scan
  completes a run of a player exactly when the board holds \<open>K\<close> consecutive stones of that
  player along a row, a column or either diagonal, so a board on which only one player has
  such a run is a win for that player.  With no run of either player the result is
  \<^verbatim>\<open>PLAYER_TIE\<close> when the active region has no empty cell and \<^verbatim>\<open>PLAYER_NONE\<close> when it
  has one.
\<close>

theorem checkWin_outcome:
  assumes K: "1 \<le> K" and ok: "cellsOk M N b"
  shows "(\<forall>e. e < length (scanEvents M N) \<and> completesAt K b PLAYER_US (scanEvents M N ! e)
              \<and> (\<forall>e'<e. \<not> completesAt K b PLAYER_THEM (scanEvents M N ! e'))
            \<longrightarrow> checkWin M N K b = PLAYER_US)
       \<and> (\<forall>e. e < length (scanEvents M N) \<and> completesAt K b PLAYER_THEM (scanEvents M N ! e)
              \<and> (\<forall>e'<e. \<not> completesAt K b PLAYER_US (scanEvents M N ! e'))
            \<longrightarrow> checkWin M N K b = PLAYER_THEM)
       \<and> (stoneRun M N K b PLAYER_US
            \<longleftrightarrow> (\<exists>e<length (scanEvents M N). completesAt K b PLAYER_US (scanEvents M N ! e)))
       \<and> (stoneRun M N K b PLAYER_THEM
            \<longleftrightarrow> (\<exists>e<length (scanEvents M N). completesAt K b PLAYER_THEM (scanEvents M N ! e)))
       \<and> (stoneRun M N K b PLAYER_US \<and> \<not> stoneRun M N K b PLAYER_THEM
            \<longrightarrow> checkWin M N K b = PLAYER_US)
       \<and> (stoneRun M N K b PLAYER_THEM \<and> \<not> stoneRun M N K b PLAYER_US
            \<longrightarrow> checkWin M N K b = PLAYER_THEM)
       \<and> (\<not> stoneRun M N K b PLAYER_US \<and> \<not> stoneRun M N K b PLAYER_THEM \<and> \<not> anyEmpty M N b
            \<longrightarrow> checkWin M N K b = PLAYER_TIE)
       \<and> (\<not> stoneRun M N K b PLAYER_US \<and> \<not> stoneRun M N K b PLAYER_THEM \<and> anyEmpty M N b
            \<longrightarrow> checkWin M N K b = PLAYER_NONE)"
proof (intro conjI allI impI)
  fix e
  assume "e < length (scanEvents M N) \<and> completesAt K b PLAYER_US (scanEvents M N ! e)
      \<and> (\<forall>e'<e. \<not> completesAt K b PLAYER_THEM (scanEvents M N ! e'))"
  then show "checkWin M N K b = PLAYER_US"
    using checkWin_first_us[OF K ok, of e] by blast
next
  fix e
  assume "e < length (scanEvents M N) \<and> completesAt K b PLAYER_THEM (scanEvents M N ! e)
      \<and> (\<forall>e'<e. \<not> completesAt K b PLAYER_US (scanEvents M N ! e'))"
  then show "checkWin M N K b = PLAYER_THEM"
    using checkWin_first_them[OF K ok, of e] by blast
next
  show "stoneRun M N K b PLAYER_US
      \<longleftrightarrow> (\<exists>e<length (scanEvents M N). completesAt K b PLAYER_US (scanEvents M N ! e))"
    using K by (rule stoneRun_events)
next
  show "stoneRun M N K b PLAYER_THEM
      \<longleftrightarrow> (\<exists>e<length (scanEvents M N). completesAt K b PLAYER_THEM (scanEvents M N ! e))"
    using K by (rule stoneRun_events)
next
  assume a: "stoneRun M N K b PLAYER_US \<and> \<not> stoneRun M N K b PLAYER_THEM"
  then have "\<exists>e<length (scanEvents M N). completesAt K b PLAYER_US (scanEvents M N ! e)"
    unfolding stoneRun_events[OF K] by blast
  then obtain e where e: "e < length (scanEvents M N)" "completesAt K b PLAYER_US (scanEvents M N ! e)"
    by blast
  have "\<not> completesAt K b PLAYER_THEM (scanEvents M N ! e')" if "e' < e" for e'
    using a that e(1) unfolding stoneRun_events[OF K] by (meson less_trans)
  with e show "checkWin M N K b = PLAYER_US" by (intro checkWin_first_us[OF K ok, of e]) auto
next
  assume a: "stoneRun M N K b PLAYER_THEM \<and> \<not> stoneRun M N K b PLAYER_US"
  then have "\<exists>e<length (scanEvents M N). completesAt K b PLAYER_THEM (scanEvents M N ! e)"
    unfolding stoneRun_events[OF K] by blast
  then obtain e where e: "e < length (scanEvents M N)" "completesAt K b PLAYER_THEM (scanEvents M N ! e)"
    by blast
  have "\<not> completesAt K b PLAYER_US (scanEvents M N ! e')" if "e' < e" for e'
    using a that e(1) unfolding stoneRun_events[OF K] by (meson less_trans)
  with e show "checkWin M N K b = PLAYER_THEM" by (intro checkWin_first_them[OF K ok, of e]) auto
next
  assume "\<not> stoneRun M N K b PLAYER_US \<and> \<not> stoneRun M N K b PLAYER_THEM \<and> \<not> anyEmpty M N b"
  then show "checkWin M N K b = PLAYER_TIE"
    using checkWin_no_run[OF K ok] by simp
next
  assume "\<not> stoneRun M N K b PLAYER_US \<and> \<not> stoneRun M N K b PLAYER_THEM \<and> anyEmpty M N b"
  then show "checkWin M N K b = PLAYER_NONE"
    using checkWin_no_run[OF K ok] by simp
qed

text \<open>
  On the 3 by 3 board with their stones in row 0 and ours in row 2 both players have a run
  of three; the scan completes theirs first, at its third event, and \<^verbatim>\<open>checkWin\<close>
  returns \<^verbatim>\<open>PLAYER_THEM\<close>.
\<close>

theorem checkWin_outcome_witness:
  "cellsOk 3 3 (boardOf [((0, 0), PLAYER_THEM), ((1, 0), PLAYER_THEM), ((2, 0), PLAYER_THEM),
                         ((0, 2), PLAYER_US), ((1, 2), PLAYER_US), ((2, 2), PLAYER_US)])
   \<and> 2 < length (scanEvents 3 3)
   \<and> completesAt 3 (boardOf [((0, 0), PLAYER_THEM), ((1, 0), PLAYER_THEM), ((2, 0), PLAYER_THEM),
                         ((0, 2), PLAYER_US), ((1, 2), PLAYER_US), ((2, 2), PLAYER_US)])
        PLAYER_THEM (scanEvents 3 3 ! 2)
   \<and> \<not> completesAt 3 (boardOf [((0, 0), PLAYER_THEM), ((1, 0), PLAYER_THEM), ((2, 0), PLAYER_THEM),
                         ((0, 2), PLAYER_US), ((1, 2), PLAYER_US), ((2, 2), PLAYER_US)])
        PLAYER_US (scanEvents 3 3 ! 0)
   \<and> \<not> completesAt 3 (boardOf [((0, 0), PLAYER_THEM), ((1, 0), PLAYER_THEM), ((2, 0), PLAYER_THEM),
                         ((0, 2), PLAYER_US), ((1, 2), PLAYER_US), ((2, 2), PLAYER_US)])
        PLAYER_US (scanEvents 3 3 ! 1)
   \<and> checkWin 3 3 3 (boardOf [((0, 0), PLAYER_THEM), ((1, 0), PLAYER_THEM), ((2, 0), PLAYER_THEM),
                         ((0, 2), PLAYER_US), ((1, 2), PLAYER_US), ((2, 2), PLAYER_US)]) = PLAYER_THEM"
proof -
  let ?b = "boardOf [((0, 0), PLAYER_THEM), ((1, 0), PLAYER_THEM), ((2, 0), PLAYER_THEM),
                     ((0, 2), PLAYER_US), ((1, 2), PLAYER_US), ((2, 2), PLAYER_US)]"
  have ok: "cellsOk 3 3 ?b" by (simp add: cellsOk_def boardOf_def)
  have ev: "take 3 (scanEvents 3 3) =
      [([(0, 0), (1, 0), (2, 0)], 0), ([(0, 0), (1, 0), (2, 0)], 1), ([(0, 0), (1, 0), (2, 0)], 2)]"
    by code_simp
  have len: "2 < length (scanEvents 3 3)" by code_simp
  have e0: "scanEvents 3 3 ! 0 = ([(0, 0), (1, 0), (2, 0)], 0)" by code_simp
  have e1: "scanEvents 3 3 ! 1 = ([(0, 0), (1, 0), (2, 0)], 1)" by code_simp
  have e2: "scanEvents 3 3 ! 2 = ([(0, 0), (1, 0), (2, 0)], 2)" by code_simp
  have c2: "completesAt 3 ?b PLAYER_THEM (scanEvents 3 3 ! 2)"
    unfolding e2 by (simp add: completesAt_def boardOf_def less_Suc_eq numeral_3_eq_3)
  have c0: "\<not> completesAt 3 ?b PLAYER_US (scanEvents 3 3 ! 0)"
    unfolding e0 by (simp add: completesAt_def)
  have c1: "\<not> completesAt 3 ?b PLAYER_US (scanEvents 3 3 ! 1)"
    unfolding e1 by (simp add: completesAt_def)
  have early: "\<forall>e'<2. \<not> completesAt 3 ?b PLAYER_US (scanEvents 3 3 ! e')"
    using c0 c1 by (simp add: less_Suc_eq numeral_2_eq_2)
  have k: "(1::int) \<le> 3" by simp
  from checkWin_outcome[OF k ok] len c2 early
  have "checkWin 3 3 3 ?b = PLAYER_THEM" by blast
  with ok len c2 c0 c1 show ?thesis by blast
qed


section \<open>Move selection\<close>

subsection \<open>A move never undoes a win\<close>

text \<open>
  Placing a stone on an empty cell only adds a bit to one cell, so every hit of the scan
  stays a hit: a board that is won stays won by the same player after any move.
\<close>

lemma trail_mono:
  assumes "\<And>x. P x \<Longrightarrow> Q x"
  shows "trail P xs \<le> trail Q xs"
proof -
  have "trail P xs \<le> length xs \<and> (\<forall>j<trail P xs. P (xs ! (length xs - Suc j)))"
    by (rule trail_ge_iff[THEN iffD1]) (rule order_refl)
  with assms have "trail P xs \<le> length xs \<and> (\<forall>j<trail P xs. Q (xs ! (length xs - Suc j)))"
    by blast
  then show ?thesis by (rule trail_ge_iff[THEN iffD2])
qed

lemma hit_mono:
  assumes "\<And>q. b q AND player \<noteq> 0 \<Longrightarrow> b' q AND player \<noteq> 0" and "hit K b player e"
  shows "hit K b' player e"
proof -
  obtain l t where e: "e = (l, t)" by (cases e)
  have "trail (\<lambda>q. b q AND player \<noteq> 0) (take (Suc t) l) \<le> trail (\<lambda>q. b' q AND player \<noteq> 0) (take (Suc t) l)"
    by (rule trail_mono) (rule assms(1))
  with assms(2) show ?thesis by (simp add: hit_def e)
qed

lemma hit_same:
  assumes "\<And>q. (b q AND player \<noteq> 0) = (b' q AND player \<noteq> 0)"
  shows "hit K b player e = hit K b' player e"
  using hit_mono[of b player b' K e] hit_mono[of b' player b K e] assms by blast

lemma move_bits:
  assumes "b p = PLAYER_NONE"
  shows "b q AND PLAYER_US \<noteq> 0 \<Longrightarrow> copyWithMove b PLAYER_US p q AND PLAYER_US \<noteq> 0"
    and "(b q AND PLAYER_THEM \<noteq> 0) = (copyWithMove b PLAYER_US p q AND PLAYER_THEM \<noteq> 0)"
    and "b q AND PLAYER_THEM \<noteq> 0 \<Longrightarrow> copyWithMove b PLAYER_THEM p q AND PLAYER_THEM \<noteq> 0"
    and "(b q AND PLAYER_US \<noteq> 0) = (copyWithMove b PLAYER_THEM p q AND PLAYER_US \<noteq> 0)"
  using assms by (auto simp: copyWithMove_def)

lemma checkWin_winner_hit:
  assumes "checkWin M N K b = w" and "w = PLAYER_US \<or> w = PLAYER_THEM"
  obtains i where "i < length (scanEvents M N)" and "hitAny K b (scanEvents M N ! i)"
    and "hit K b PLAYER_US (scanEvents M N ! i) \<longleftrightarrow> w = PLAYER_US"
    and "\<And>j. j < i \<Longrightarrow> \<not> hitAny K b (scanEvents M N ! j)"
proof -
  let ?E = "scanEvents M N"
  have "find (hitAny K b) ?E \<noteq> None"
  proof
    assume "find (hitAny K b) ?E = None"
    then have "checkWin M N K b = PLAYER_NONE \<or> checkWin M N K b = PLAYER_TIE"
      by (simp add: checkWin_find hitResult_def)
    with assms show False by auto
  qed
  then obtain x where x: "find (hitAny K b) ?E = Some x" by blast
  then obtain i where i: "i < length ?E" "hitAny K b (?E ! i)" "x = ?E ! i"
    "\<forall>j<i. \<not> hitAny K b (?E ! j)" unfolding find_Some_iff by blast
  have "checkWin M N K b = (if hit K b PLAYER_US x then PLAYER_US else PLAYER_THEM)"
    by (simp add: checkWin_find x hitResult_def)
  with assms(1) have "hit K b PLAYER_US (?E ! i) \<longleftrightarrow> w = PLAYER_US"
    using assms(2) by (auto simp: i(3) split: if_splits)
  with i that show ?thesis by blast
qed

lemma checkWin_keeps_winner:
  assumes w: "checkWin M N K b = w" and pl: "w = PLAYER_US \<or> w = PLAYER_THEM"
    and em: "b p = PLAYER_NONE"
  shows "checkWin M N K (copyWithMove b w p) = w"
proof -
  let ?E = "scanEvents M N"
  let ?b' = "copyWithMove b w p"
  from checkWin_winner_hit[OF w pl] obtain i0 where i0: "i0 < length ?E" "hitAny K b (?E ! i0)"
    "hit K b PLAYER_US (?E ! i0) \<longleftrightarrow> w = PLAYER_US"
    "\<And>j. j < i0 \<Longrightarrow> \<not> hitAny K b (?E ! j)" by blast
  show ?thesis
  proof (rule disjE[OF pl])
    assume us: "w = PLAYER_US"
    have up: "hit K ?b' PLAYER_US e" if "hit K b PLAYER_US e" for e
      unfolding us by (rule hit_mono[where b = b, OF move_bits(1)[of b p, OF em] that])
    have same: "hit K b PLAYER_THEM e = hit K ?b' PLAYER_THEM e" for e
      unfolding us by (rule hit_same) (rule move_bits(2)[of b p, OF em])
    have "hitAny K ?b' (?E ! i0)" using i0(3) us up by (simp add: hitAny_def)
    from first_hit[OF i0(1) this] obtain i where i: "i \<le> i0"
      "find (hitAny K ?b') ?E = Some (?E ! i)" "hitAny K ?b' (?E ! i)" by blast
    have "hit K ?b' PLAYER_US (?E ! i)"
    proof (cases "i = i0")
      case True
      with i0(3) us up show ?thesis by simp
    next
      case False
      with i(1) have "i < i0" by simp
      from i0(4)[OF this] have "\<not> hit K b PLAYER_THEM (?E ! i)" by (simp add: hitAny_def)
      with same have "\<not> hit K ?b' PLAYER_THEM (?E ! i)" by simp
      with i(3) show ?thesis by (simp add: hitAny_def)
    qed
    with i(2) show ?thesis by (simp add: checkWin_find hitResult_def us)
  next
    assume them: "w = PLAYER_THEM"
    have up: "hit K ?b' PLAYER_THEM e" if "hit K b PLAYER_THEM e" for e
      unfolding them by (rule hit_mono[where b = b, OF move_bits(3)[of b p, OF em] that])
    have same: "hit K b PLAYER_US e = hit K ?b' PLAYER_US e" for e
      unfolding them by (rule hit_same) (rule move_bits(4)[of b p, OF em])
    from i0(2,3) them have "hit K b PLAYER_THEM (?E ! i0)" by (simp add: hitAny_def)
    then have "hitAny K ?b' (?E ! i0)" using up by (simp add: hitAny_def)
    from first_hit[OF i0(1) this] obtain i where i: "i \<le> i0"
      "find (hitAny K ?b') ?E = Some (?E ! i)" "hitAny K ?b' (?E ! i)" by blast
    have "\<not> hit K b PLAYER_US (?E ! i)"
    proof (cases "i = i0")
      case True
      with i0(3) them show ?thesis by simp
    next
      case False
      with i(1) have "i < i0" by simp
      from i0(4)[OF this] show ?thesis by (simp add: hitAny_def)
    qed
    with same have "\<not> hit K ?b' PLAYER_US (?E ! i)" by simp
    with i(2) show ?thesis by (simp add: checkWin_find hitResult_def them)
  qed
qed

lemma checkWin_no_new_loss:
  assumes nu: "checkWin M N K b \<noteq> PLAYER_US" and nt: "checkWin M N K b \<noteq> PLAYER_THEM"
    and em: "b p = PLAYER_NONE"
  shows "checkWin M N K (copyWithMove b PLAYER_US p) \<noteq> PLAYER_THEM"
proof
  let ?E = "scanEvents M N"
  let ?b' = "copyWithMove b PLAYER_US p"
  assume a: "checkWin M N K ?b' = PLAYER_THEM"
  from checkWin_winner_hit[OF a] obtain i where i: "i < length ?E" "hitAny K ?b' (?E ! i)"
    "hit K ?b' PLAYER_US (?E ! i) \<longleftrightarrow> PLAYER_THEM = PLAYER_US" by blast
  then have "hit K ?b' PLAYER_THEM (?E ! i)" by (simp add: hitAny_def)
  moreover have "hit K b PLAYER_THEM (?E ! i) = hit K ?b' PLAYER_THEM (?E ! i)"
    by (rule hit_same) (rule move_bits(2)[of b p, OF em])
  ultimately have h: "hitAny K b (?E ! i)" by (simp add: hitAny_def)
  have "\<exists>x. x \<in> set ?E \<and> hitAny K b x"
    using h nth_mem[OF i(1)] by blast
  then have "find (hitAny K b) ?E \<noteq> None"
    by (simp only: find_None_iff not_not)
  then obtain x where "find (hitAny K b) ?E = Some x" by blast
  then have "checkWin M N K b = (if hit K b PLAYER_US x then PLAYER_US else PLAYER_THEM)"
    by (simp add: checkWin_find hitResult_def)
  with nu nt show False by (simp split: if_splits)
qed

lemma checkWin_not_tie:
  assumes "anyEmpty M N b"
  shows "checkWin M N K b \<noteq> PLAYER_TIE"
  using assms by (auto simp: checkWin_find hitResult_def split: option.splits)

subsection \<open>The stages\<close>

text \<open>
  \<^verbatim>\<open>countEmpty\<close>, \<^verbatim>\<open>minimaxMove\<close>, \<^verbatim>\<open>higestScoredMove\<close> and \<^verbatim>\<open>backUpMove\<close>.  Each
  stage returns its flag and the cursor \<open>(x, y)\<close> it leaves to the caller.
\<close>

definition countEmpty :: "int \<Rightarrow> int \<Rightarrow> board_t \<Rightarrow> int" where
  "countEmpty M N b =
     fold (\<lambda>x. fold (\<lambda>y res. if b (x, y) = PLAYER_NONE then res + 1 else res) [0..N - 1])
          [0..M - 1] 0"

definition minimaxMove :: "int \<Rightarrow> int \<Rightarrow> int \<Rightarrow> board_t \<Rightarrow> pos \<Rightarrow> nat \<Rightarrow> bool \<times> pos" where
  "minimaxMove M N K b c depth =
     (let r = minimax M N K b c depth EVAL_N_INF EVAL_INF True
      in (fst (snd r) \<noteq> - 1 \<and> snd (snd r) \<noteq> - 1, snd r))"

definition higestScoredMove :: "int \<Rightarrow> int \<Rightarrow> int \<Rightarrow> board_t \<Rightarrow> pos \<Rightarrow> bool \<times> pos" where
  "higestScoredMove M N K b c =
     (let r = fold (\<lambda>p st. let score = evaluateBoard M N K (copyWithMove b PLAYER_US p)
                            in if score > fst st then (score, p) else st)
                   (positions M N b) (EVAL_N_INF, (- 1, - 1))
      in (fst (snd r) \<noteq> - 1, snd r))"

definition backUpMove :: "int \<Rightarrow> int \<Rightarrow> board_t \<Rightarrow> pos \<Rightarrow> bool \<times> pos" where
  "backUpMove M N b c =
     (case nextPosition M N b (- 1, snd c) of
        None \<Rightarrow> (False, (- 1, snd c))
      | Some p \<Rightarrow> (True, p))"

text \<open>
  The body of the loop of \<^verbatim>\<open>main\<close> for a loaded board: the stages in order, each tried
  when the ones before returned 0.  The result is the stage that posted a move and the
  move, or \<open>None\<close> when the last stage gives up; \<open>c\<close> is the content of \<open>(x, y)\<close> on
  entry.  The depth is the \<^verbatim>\<open>int\<close> returned by \<^verbatim>\<open>calculateDepth\<close>, which is never
  negative.
\<close>

datatype stage = BasicSolve | Minimax | HigestScore | BackUp

definition MAX_MINIMAX_SEARCH_NODES :: "32 word" where
  "MAX_MINIMAX_SEARCH_NODES = 800000"

definition solveBoard :: "int \<Rightarrow> int \<Rightarrow> int \<Rightarrow> board_t \<Rightarrow> pos \<Rightarrow> (stage \<times> pos) option" where
  "solveBoard M N K b c =
     (let r1 = basicSolve M N K b c in
      if fst r1 then Some (BasicSolve, snd r1) else
      let depth = calculateDepth (word_of_int (countEmpty M N b)) MAX_MINIMAX_SEARCH_NODES;
          r2 = minimaxMove M N K b (snd r1) (nat depth) in
      if fst r2 then Some (Minimax, snd r2) else
      let r3 = higestScoredMove M N K b (snd r2) in
      if fst r3 then Some (HigestScore, snd r3) else
      let r4 = backUpMove M N b (snd r3) in
      if fst r4 then Some (BackUp, snd r4) else None)"

subsection \<open>The tactical stage\<close>

lemma positions_eq:
  assumes "1 \<le> M" and "1 \<le> N"
  shows "positions M N b = filter (\<lambda>p. b p = PLAYER_NONE) (allCells M N)"
  unfolding positions_def using assms by (rule enumFrom_sentinel)

lemma positions_set:
  assumes "1 \<le> M" and "1 \<le> N"
  shows "p \<in> set (positions M N b) \<longleftrightarrow> inRegion M N p \<and> b p = PLAYER_NONE"
  by (cases p) (auto simp: positions_eq[OF assms] set_allCells inRegion_def)

lemma positions_nonempty:
  assumes "1 \<le> M" and "1 \<le> N"
  shows "positions M N b \<noteq> [] \<longleftrightarrow> anyEmpty M N b"
proof -
  have "positions M N b \<noteq> [] \<longleftrightarrow> (\<exists>p. p \<in> set (positions M N b))"
    by (cases "positions M N b") auto
  then show ?thesis by (simp add: positions_set[OF assms] anyEmpty_def)
qed

lemma findMove_hit: "fst (findMove P ps c) \<Longrightarrow> snd (findMove P ps c) \<in> set ps"
  by (induction ps arbitrary: c) (auto split: if_splits)

lemma basicSolve_hit:
  assumes "fst (basicSolve M N K b c)"
  shows "snd (basicSolve M N K b c) \<in> set (positions M N b)"
  using assms unfolding basicSolve_def Let_def
  by (auto split: if_splits intro: findMove_hit)

lemma basicSolve_miss:
  assumes "\<not> fst (basicSolve M N K b c)"
  shows "\<forall>p\<in>set (positions M N b). \<not> winsAt M N K b PLAYER_US p \<and> \<not> winsAt M N K b PLAYER_THEM p"
proof -
  define r1 where "r1 = findMove (winsAt M N K b PLAYER_US) (positions M N b) (- 1, snd c)"
  define r2 where "r2 = findMove (winsAt M N K b PLAYER_THEM) (positions M N b) (- 1, snd (snd r1))"
  from assms have "\<not> fst r1 \<and> \<not> fst r2"
    unfolding basicSolve_def Let_def r1_def[symmetric] r2_def[symmetric]
    by (auto split: if_splits)
  then show ?thesis
    unfolding r1_def r2_def by (auto dest!: findMove_miss)
qed

lemma basicSolve_no_positions:
  assumes "positions M N b = []"
  shows "basicSolve M N K b c = (False, (- 1, snd c))"
  by (simp add: basicSolve_def assms)

lemma basicSolve_miss_not_terminal:
  assumes M: "1 \<le> M" and N: "1 \<le> N" and e: "anyEmpty M N b" and miss: "\<not> fst (basicSolve M N K b c)"
  shows "\<not> terminal M N K b"
proof -
  from e obtain p where p: "p \<in> set (positions M N b)"
    using positions_nonempty[OF M N, of b] by (cases "positions M N b") auto
  then have em: "b p = PLAYER_NONE" by (simp add: positions_set[OF M N])
  from basicSolve_miss[OF miss] p
  have nu: "checkWin M N K (copyWithMove b PLAYER_US p) \<noteq> PLAYER_US"
    and nt: "checkWin M N K (copyWithMove b PLAYER_THEM p) \<noteq> PLAYER_THEM"
    by (auto simp: winsAt_def)
  have "checkWin M N K b \<noteq> PLAYER_US"
    using checkWin_keeps_winner[of M N K b PLAYER_US p] em nu by blast
  moreover have "checkWin M N K b \<noteq> PLAYER_THEM"
    using checkWin_keeps_winner[of M N K b PLAYER_THEM p] em nt by blast
  moreover have "checkWin M N K b \<noteq> PLAYER_TIE" using e by (rule checkWin_not_tie)
  ultimately show ?thesis by (simp add: terminal_def)
qed


subsection \<open>The search stage\<close>

text \<open>
  Every value of the search is above \<^verbatim>\<open>EVAL_N_INF\<close> once a move has been looked at, so at
  a maximising root that is not terminal and has an empty cell the first child already
  beats the initial value and the cursor ends on an empty cell.
\<close>

lemma decay_gt: "- 10000 \<le> v \<Longrightarrow> - 10000 < decay v"
  by (simp add: decay_def)

lemma fullSearch_ge:
  assumes "M \<le> 15" and "N \<le> 15"
  shows "- 10000 \<le> fst (fullSearch M N K b c depth isMax)"
proof (induction depth arbitrary: b c isMax)
  case 0
  show ?case
  proof (cases "terminal M N K b")
    case True
    then show ?thesis by (simp add: fullSearch_terminal)
  next
    case False
    then show ?thesis using evaluateBoard_range(1)[OF assms, of K b] by (simp add: fullSearch_leaf)
  qed
next
  case (Suc d)
  show ?case
  proof (cases "terminal M N K b")
    case True
    then show ?thesis by (simp add: fullSearch_terminal)
  next
    case False
    show ?thesis
    proof (cases isMax)
      case True
      have "EVAL_N_INF \<le> fst (maxAll (\<lambda>p. fst (fullSearch M N K (copyWithMove b PLAYER_US p) c d False))
                 (positions M N b) EVAL_N_INF (- 1, - 1))"
        by (rule maxAll_ge)
      then have "- 10000 < decay (fst (maxAll (\<lambda>p. fst (fullSearch M N K (copyWithMove b PLAYER_US p) c d False))
                 (positions M N b) EVAL_N_INF (- 1, - 1)))"
        by (intro decay_gt) simp
      then show ?thesis using True False by (simp add: fullSearch_max)
    next
      case isMin: False
      have "- 10000 \<le> fst (minAll (\<lambda>p. fst (fullSearch M N K (copyWithMove b PLAYER_THEM p) c d True))
                 (positions M N b) EVAL_INF (- 1, - 1))"
        by (rule minAll_ge) (simp_all add: Suc.IH)
      then have "- 10000 < decay (fst (minAll (\<lambda>p. fst (fullSearch M N K (copyWithMove b PLAYER_THEM p) c d True))
                 (positions M N b) EVAL_INF (- 1, - 1)))"
        by (rule decay_gt)
      then show ?thesis using isMin False by (simp add: fullSearch_min)
    qed
  qed
qed

lemma fullSearch_gt:
  assumes "M \<le> 15" and "N \<le> 15" and "checkWin M N K b \<noteq> PLAYER_THEM"
  shows "- 10000 < fst (fullSearch M N K b c depth isMax)"
proof (cases "terminal M N K b")
  case True
  with assms(3) show ?thesis by (simp add: fullSearch_terminal)
next
  case False
  show ?thesis
  proof (cases depth)
    case 0
    with False show ?thesis using evaluateBoard_range(1)[OF assms(1,2), of K b] by (simp add: fullSearch_leaf)
  next
    case (Suc d)
    show ?thesis
    proof (cases isMax)
      case True
      have "EVAL_N_INF \<le> fst (maxAll (\<lambda>p. fst (fullSearch M N K (copyWithMove b PLAYER_US p) c d False))
                 (positions M N b) EVAL_N_INF (- 1, - 1))"
        by (rule maxAll_ge)
      then have "- 10000 < decay (fst (maxAll (\<lambda>p. fst (fullSearch M N K (copyWithMove b PLAYER_US p) c d False))
                 (positions M N b) EVAL_N_INF (- 1, - 1)))"
        by (intro decay_gt) simp
      then show ?thesis using True False Suc by (simp add: fullSearch_max)
    next
      case isMin: False
      have "- 10000 \<le> fst (minAll (\<lambda>p. fst (fullSearch M N K (copyWithMove b PLAYER_THEM p) c d True))
                 (positions M N b) EVAL_INF (- 1, - 1))"
        by (rule minAll_ge) (simp_all add: fullSearch_ge[OF assms(1,2)])
      then have "- 10000 < decay (fst (minAll (\<lambda>p. fst (fullSearch M N K (copyWithMove b PLAYER_THEM p) c d True))
                 (positions M N b) EVAL_INF (- 1, - 1)))"
        by (rule decay_gt)
      then show ?thesis using isMin False Suc by (simp add: fullSearch_min)
    qed
  qed
qed

lemma maxAll_best_mem: "snd (maxAll g ps v best) \<in> insert best (set ps)"
proof (induction ps arbitrary: v best)
  case Nil
  show ?case by simp
next
  case (Cons p ps)
  show ?case
  proof (cases "g p > v")
    case True
    with Cons.IH[of "g p" p] show ?thesis by auto
  next
    case False
    with Cons.IH[of v best] show ?thesis by auto
  qed
qed

lemma maxAll_first_better:
  assumes "g p > v"
  shows "snd (maxAll g (p # ps) v best) \<in> set (p # ps)"
  using assms maxAll_best_mem[of g ps "g p" p] by auto

lemma minimaxMove_finds:
  assumes M: "1 \<le> M" "M \<le> 15" and N: "1 \<le> N" "N \<le> 15"
    and e: "anyEmpty M N b" and nt: "\<not> terminal M N K b"
  shows "fst (minimaxMove M N K b c (Suc d)) \<and> snd (minimaxMove M N K b c (Suc d)) \<in> set (positions M N b)"
proof -
  let ?g = "\<lambda>p. fst (fullSearch M N K (copyWithMove b PLAYER_US p) c d False)"
  from e obtain p ps where ps: "positions M N b = p # ps"
    using positions_nonempty[OF M(1) N(1), of b] by (cases "positions M N b") auto
  then have "p \<in> set (positions M N b)" by simp
  then have em: "b p = PLAYER_NONE" by (simp add: positions_set[OF M(1) N(1)])
  from nt have "checkWin M N K b \<noteq> PLAYER_US" "checkWin M N K b \<noteq> PLAYER_THEM"
    by (simp_all add: terminal_def)
  then have "checkWin M N K (copyWithMove b PLAYER_US p) \<noteq> PLAYER_THEM"
    using em by (rule checkWin_no_new_loss)
  then have "?g p > EVAL_N_INF" using fullSearch_gt[OF M(2) N(2)] by simp
  then have "snd (maxAll ?g (p # ps) EVAL_N_INF (- 1, - 1)) \<in> set (p # ps)"
    by (rule maxAll_first_better)
  then have best: "snd (maxAll ?g (positions M N b) EVAL_N_INF (- 1, - 1)) \<in> set (positions M N b)"
    by (simp only: ps)
  have "minimax M N K b c (Suc d) EVAL_N_INF EVAL_INF True = fullSearch M N K b c (Suc d) True"
    using M(2) N(2) by (rule minimax_fullSearch) simp
  then have r: "snd (minimax M N K b c (Suc d) EVAL_N_INF EVAL_INF True)
      = snd (maxAll ?g (positions M N b) EVAL_N_INF (- 1, - 1))"
    by (simp add: fullSearch_max[OF nt])
  from best have "inRegion M N (snd (maxAll ?g (positions M N b) EVAL_N_INF (- 1, - 1)))"
    by (simp add: positions_set[OF M(1) N(1)])
  then have "fst (snd (maxAll ?g (positions M N b) EVAL_N_INF (- 1, - 1))) \<noteq> - 1
      \<and> snd (snd (maxAll ?g (positions M N b) EVAL_N_INF (- 1, - 1))) \<noteq> - 1"
    by (auto simp: inRegion_def split: prod.splits)
  with best r show ?thesis by (simp add: minimaxMove_def Let_def)
qed

lemma minimax_depth0_cursor: "snd (minimax M N K b c 0 alpha beta isMax) = c"
  by (cases "terminal M N K b") (simp_all add: minimax_terminal minimax_leaf)

subsection \<open>The number of empty cells\<close>

lemma fold_count:
  "fold (\<lambda>y res. if P y then res + 1 else res) ys (r::int) = r + int (length (filter P ys))"
  by (induction ys arbitrary: r) simp_all

lemma countEmpty_fold:
  "countEmpty M N b = fold (\<lambda>p res. if b p = PLAYER_NONE then res + 1 else res) (concat (colLines M N)) 0"
  by (simp add: countEmpty_def colLines_def fold_concat_lines fold_map comp_def)

lemma set_colCells: "set (concat (colLines M N)) = {p. inRegion M N p}"
  by (auto simp: colLines_def inRegion_def)

lemma length_colCells: "length (concat (colLines M N)) = nat M * nat N"
proof -
  have "length (concat (colLines M N)) = sum_list (map length (colLines M N))"
    by (simp add: length_concat)
  also have "map length (colLines M N) = map (\<lambda>x. nat N) [0..M - 1]"
    by (simp add: colLines_def)
  also have "sum_list (map (\<lambda>x. nat N) [0..M - 1]) = nat M * nat N"
    by (simp add: sum_list_triv)
  finally show ?thesis .
qed

lemma countEmpty_filter:
  "countEmpty M N b = int (length (filter (\<lambda>p. b p = PLAYER_NONE) (concat (colLines M N))))"
  unfolding countEmpty_fold fold_count by simp

lemma countEmpty_range:
  assumes "M \<le> 15" and "N \<le> 15"
  shows "0 \<le> countEmpty M N b" and "countEmpty M N b \<le> 225"
proof -
  show "0 \<le> countEmpty M N b" by (simp add: countEmpty_filter)
  have "length (filter (\<lambda>p. b p = PLAYER_NONE) (concat (colLines M N))) \<le> length (concat (colLines M N))"
    by (rule length_filter_le)
  also have "\<dots> = nat M * nat N" by (rule length_colCells)
  also have "\<dots> \<le> 15 * 15"
    using assms by (intro mult_le_mono) simp_all
  finally show "countEmpty M N b \<le> 225" by (simp add: countEmpty_filter)
qed

lemma countEmpty_pos:
  assumes "anyEmpty M N b"
  shows "0 < countEmpty M N b"
proof -
  from assms obtain p where "p \<in> set (concat (colLines M N))" "b p = PLAYER_NONE"
    unfolding anyEmpty_def set_colCells by blast
  then have "filter (\<lambda>p. b p = PLAYER_NONE) (concat (colLines M N)) \<noteq> []"
    unfolding filter_empty_conv by blast
  then show ?thesis by (simp add: countEmpty_filter)
qed

lemma countEmpty_zero:
  assumes "\<not> anyEmpty M N b"
  shows "countEmpty M N b = 0"
proof -
  have "\<not> b p = PLAYER_NONE" if "p \<in> set (concat (colLines M N))" for p
    using that assms unfolding anyEmpty_def set_colCells by blast
  then have "filter (\<lambda>p. b p = PLAYER_NONE) (concat (colLines M N)) = []"
    unfolding filter_empty_conv by blast
  then show ?thesis by (simp add: countEmpty_filter)
qed

subsection \<open>The pipeline\<close>

text \<open>
  The results of the four stages as \<^verbatim>\<open>main\<close> calls them, each on the cursor left by the
  stage before.
\<close>

definition stage1 :: "int \<Rightarrow> int \<Rightarrow> int \<Rightarrow> board_t \<Rightarrow> pos \<Rightarrow> bool \<times> pos" where
  "stage1 M N K b c = basicSolve M N K b c"

definition stage2 :: "int \<Rightarrow> int \<Rightarrow> int \<Rightarrow> board_t \<Rightarrow> pos \<Rightarrow> bool \<times> pos" where
  "stage2 M N K b c =
     minimaxMove M N K b (snd (stage1 M N K b c))
       (nat (calculateDepth (word_of_int (countEmpty M N b)) MAX_MINIMAX_SEARCH_NODES))"

definition stage3 :: "int \<Rightarrow> int \<Rightarrow> int \<Rightarrow> board_t \<Rightarrow> pos \<Rightarrow> bool \<times> pos" where
  "stage3 M N K b c = higestScoredMove M N K b (snd (stage2 M N K b c))"

definition stage4 :: "int \<Rightarrow> int \<Rightarrow> int \<Rightarrow> board_t \<Rightarrow> pos \<Rightarrow> bool \<times> pos" where
  "stage4 M N K b c = backUpMove M N b (snd (stage3 M N K b c))"

lemma solveBoard_stages:
  "solveBoard M N K b c =
     (if fst (stage1 M N K b c) then Some (BasicSolve, snd (stage1 M N K b c))
      else if fst (stage2 M N K b c) then Some (Minimax, snd (stage2 M N K b c))
      else if fst (stage3 M N K b c) then Some (HigestScore, snd (stage3 M N K b c))
      else if fst (stage4 M N K b c) then Some (BackUp, snd (stage4 M N K b c))
      else None)"
  unfolding solveBoard_def stage1_def stage2_def stage3_def stage4_def Let_def
  by (rule refl)

text \<open>
  With an empty cell the board has between 1 and 225 of them, fewer than the node budget,
  so the depth is at least 1; with none it is 0.
\<close>

lemma word_of_count_nonzero: "0 < n \<Longrightarrow> n \<le> 225 \<Longrightarrow> (word_of_int n :: 32 word) \<noteq> 0"
  by (auto simp add: word_of_int_eq_0_iff)

lemma sint_of_count: "0 \<le> n \<Longrightarrow> n \<le> 225 \<Longrightarrow> sint (word_of_int n :: 32 word) = n"
  by (simp add: signed_of_int signed_take_bit_int_eq_self)

lemma searchDepth_pos:
  assumes "M \<le> 15" and "N \<le> 15" and "anyEmpty M N b"
  shows "\<exists>d. nat (calculateDepth (word_of_int (countEmpty M N b)) MAX_MINIMAX_SEARCH_NODES) = Suc d"
proof -
  let ?n = "countEmpty M N b"
  have n: "0 < ?n" "?n \<le> 225"
    using countEmpty_pos[OF assms(3)] countEmpty_range(2)[OF assms(1,2), of b] by simp_all
  have "(word_of_int ?n :: 32 word) \<noteq> 0" using n by (rule word_of_count_nonzero)
  moreover have "sint (word_of_int ?n :: 32 word) < sint MAX_MINIMAX_SEARCH_NODES"
    using n by (simp add: sint_of_count MAX_MINIMAX_SEARCH_NODES_def)
  ultimately have "1 \<le> calculateDepth (word_of_int ?n) MAX_MINIMAX_SEARCH_NODES"
    by (rule calculateDepth_ge_1)
  then have "0 < nat (calculateDepth (word_of_int ?n) MAX_MINIMAX_SEARCH_NODES)" by simp
  then show ?thesis by (auto simp: gr0_conv_Suc)
qed

lemma searchDepth_zero:
  assumes "\<not> anyEmpty M N b"
  shows "nat (calculateDepth (word_of_int (countEmpty M N b)) MAX_MINIMAX_SEARCH_NODES) = 0"
  by (simp add: countEmpty_zero[OF assms] calculateDepth_zero)

lemma nextPosition_sentinel_none:
  assumes "1 \<le> M" and "1 \<le> N" and "\<not> anyEmpty M N b"
  shows "nextPosition M N b (- 1, y) = None"
proof -
  have "positions M N b = []"
    using positions_nonempty[OF assms(1,2), of b] assms(3) by simp
  then have "enumFrom M N b (- 1, y) = []"
    by (simp add: positions_def enumFrom_sentinel[OF assms(1,2)])
  then show ?thesis
    by (simp add: enumFrom.simps[of M N b "(- 1, y)"] split: option.splits)
qed

lemma stages_found:
  assumes M: "1 \<le> M" "M \<le> 15" and N: "1 \<le> N" "N \<le> 15" and e: "anyEmpty M N b"
  shows "(fst (stage1 M N K b c) \<and> snd (stage1 M N K b c) \<in> set (positions M N b))
       \<or> (\<not> fst (stage1 M N K b c) \<and> fst (stage2 M N K b c) \<and> snd (stage2 M N K b c) \<in> set (positions M N b))"
proof (cases "fst (stage1 M N K b c)")
  case True
  then show ?thesis using basicSolve_hit[of M N K b c] by (simp add: stage1_def)
next
  case False
  then have nt: "\<not> terminal M N K b"
    using basicSolve_miss_not_terminal[OF M(1) N(1) e, of K c] by (simp add: stage1_def)
  from searchDepth_pos[OF M(2) N(2) e] obtain d
    where d: "nat (calculateDepth (word_of_int (countEmpty M N b)) MAX_MINIMAX_SEARCH_NODES) = Suc d" ..
  from minimaxMove_finds[OF M N e nt, of "snd (stage1 M N K b c)" d] False
  show ?thesis by (simp add: stage2_def d)
qed

lemma stages_none:
  assumes M: "1 \<le> M" and N: "1 \<le> N" and e: "\<not> anyEmpty M N b"
  shows "\<not> fst (stage1 M N K b c)" and "\<not> fst (stage2 M N K b c)"
    and "\<not> fst (stage3 M N K b c)" and "\<not> fst (stage4 M N K b c)"
proof -
  have ps: "positions M N b = []"
    using positions_nonempty[OF M N, of b] e by simp
  have s1: "stage1 M N K b c = (False, (- 1, snd c))"
    by (simp add: stage1_def basicSolve_no_positions[OF ps])
  then show "\<not> fst (stage1 M N K b c)" by simp
  have "snd (stage2 M N K b c) = (- 1, snd c)"
    by (simp add: stage2_def s1 searchDepth_zero[OF e] minimaxMove_def Let_def minimax_depth0_cursor)
  then show "\<not> fst (stage2 M N K b c)"
    by (simp add: stage2_def minimaxMove_def Let_def)
  have s3: "stage3 M N K b c = (False, (- 1, - 1))"
    by (simp add: stage3_def higestScoredMove_def ps)
  then show "\<not> fst (stage3 M N K b c)" by simp
  show "\<not> fst (stage4 M N K b c)"
    by (simp add: stage4_def s3 backUpMove_def nextPosition_sentinel_none[OF M N e])
qed

text \<open>
  Claim C9.  On a board of at least 1 and at most 15 columns and rows: if the active region
  has an empty cell, the pipeline produces a move, and the move is an empty cell of the
  active region (it comes from \<^verbatim>\<open>basicSolve\<close> or from the search); if it has none, each of
  the four stages returns 0 and the pipeline produces no move.  In every case a stage
  produces the move exactly when it returns 1 and all stages before it returned 0.
\<close>

theorem solveBoard_finds_move:
  assumes "1 \<le> M" and "M \<le> 15" and "1 \<le> N" and "N \<le> 15"
  shows "(anyEmpty M N b \<longrightarrow>
            (\<exists>s p. solveBoard M N K b c = Some (s, p) \<and> (s = BasicSolve \<or> s = Minimax)
                   \<and> inRegion M N p \<and> b p = PLAYER_NONE))
       \<and> (\<not> anyEmpty M N b \<longrightarrow>
            \<not> fst (stage1 M N K b c) \<and> \<not> fst (stage2 M N K b c)
            \<and> \<not> fst (stage3 M N K b c) \<and> \<not> fst (stage4 M N K b c)
            \<and> solveBoard M N K b c = None)
       \<and> (\<forall>p. solveBoard M N K b c = Some (BasicSolve, p) \<longleftrightarrow>
                fst (stage1 M N K b c) \<and> p = snd (stage1 M N K b c))
       \<and> (\<forall>p. solveBoard M N K b c = Some (Minimax, p) \<longleftrightarrow>
                \<not> fst (stage1 M N K b c) \<and> fst (stage2 M N K b c) \<and> p = snd (stage2 M N K b c))
       \<and> (\<forall>p. solveBoard M N K b c = Some (HigestScore, p) \<longleftrightarrow>
                \<not> fst (stage1 M N K b c) \<and> \<not> fst (stage2 M N K b c)
                \<and> fst (stage3 M N K b c) \<and> p = snd (stage3 M N K b c))
       \<and> (\<forall>p. solveBoard M N K b c = Some (BackUp, p) \<longleftrightarrow>
                \<not> fst (stage1 M N K b c) \<and> \<not> fst (stage2 M N K b c)
                \<and> \<not> fst (stage3 M N K b c) \<and> fst (stage4 M N K b c)
                \<and> p = snd (stage4 M N K b c))"
proof (intro conjI impI allI)
  assume e: "anyEmpty M N b"
  from stages_found[OF assms e, of K c]
  consider (basic) "fst (stage1 M N K b c)" "snd (stage1 M N K b c) \<in> set (positions M N b)"
    | (search) "\<not> fst (stage1 M N K b c)" "fst (stage2 M N K b c)"
        "snd (stage2 M N K b c) \<in> set (positions M N b)"
    by blast
  then show "\<exists>s p. solveBoard M N K b c = Some (s, p) \<and> (s = BasicSolve \<or> s = Minimax)
               \<and> inRegion M N p \<and> b p = PLAYER_NONE"
  proof cases
    case basic
    then have "solveBoard M N K b c = Some (BasicSolve, snd (stage1 M N K b c))
        \<and> (BasicSolve = BasicSolve \<or> BasicSolve = Minimax)
        \<and> inRegion M N (snd (stage1 M N K b c)) \<and> b (snd (stage1 M N K b c)) = PLAYER_NONE"
      by (simp add: solveBoard_stages positions_set[OF assms(1,3)])
    then show ?thesis by blast
  next
    case search
    then have "solveBoard M N K b c = Some (Minimax, snd (stage2 M N K b c))
        \<and> (Minimax = BasicSolve \<or> Minimax = Minimax)
        \<and> inRegion M N (snd (stage2 M N K b c)) \<and> b (snd (stage2 M N K b c)) = PLAYER_NONE"
      by (simp add: solveBoard_stages positions_set[OF assms(1,3)])
    then show ?thesis by blast
  qed
next
  assume e: "\<not> anyEmpty M N b"
  note n = stages_none[OF assms(1,3) e, of K c]
  show "\<not> fst (stage1 M N K b c)" by (rule n(1))
  show "\<not> fst (stage2 M N K b c)" by (rule n(2))
  show "\<not> fst (stage3 M N K b c)" by (rule n(3))
  show "\<not> fst (stage4 M N K b c)" by (rule n(4))
  show "solveBoard M N K b c = None" using n by (simp add: solveBoard_stages)
next
  fix p
  show "solveBoard M N K b c = Some (BasicSolve, p) \<longleftrightarrow>
          fst (stage1 M N K b c) \<and> p = snd (stage1 M N K b c)"
    by (auto simp: solveBoard_stages)
next
  fix p
  show "solveBoard M N K b c = Some (Minimax, p) \<longleftrightarrow>
          \<not> fst (stage1 M N K b c) \<and> fst (stage2 M N K b c) \<and> p = snd (stage2 M N K b c)"
    by (auto simp: solveBoard_stages)
next
  fix p
  show "solveBoard M N K b c = Some (HigestScore, p) \<longleftrightarrow>
          \<not> fst (stage1 M N K b c) \<and> \<not> fst (stage2 M N K b c)
          \<and> fst (stage3 M N K b c) \<and> p = snd (stage3 M N K b c)"
    by (auto simp: solveBoard_stages)
next
  fix p
  show "solveBoard M N K b c = Some (BackUp, p) \<longleftrightarrow>
          \<not> fst (stage1 M N K b c) \<and> \<not> fst (stage2 M N K b c)
          \<and> \<not> fst (stage3 M N K b c) \<and> fst (stage4 M N K b c)
          \<and> p = snd (stage4 M N K b c)"
    by (auto simp: solveBoard_stages)
qed

text \<open>
  On the empty 2 by 2 board with \<open>K = 3\<close> the tactical stage finds nothing and the search
  posts \<open>(0, 0)\<close>; on the 2 by 2 board filled with our stones nothing is posted.
\<close>

lemma anyEmpty_empty22: "anyEmpty 2 2 (boardOf [])"
  unfolding anyEmpty_def by (rule exI[of _ "(0, 0)"]) (simp add: inRegion_def boardOf_def)

lemma not_anyEmpty_full22: "\<not> anyEmpty 2 2 (\<lambda>p. PLAYER_US)"
  by (simp add: anyEmpty_def)

theorem solveBoard_finds_move_witness:
  "anyEmpty 2 2 (boardOf [])
   \<and> solveBoard 2 2 3 (boardOf []) (5, 5) = Some (Minimax, (0, 0))
   \<and> (\<exists>s p. solveBoard 2 2 3 (boardOf []) (5, 5) = Some (s, p) \<and> (s = BasicSolve \<or> s = Minimax)
            \<and> inRegion 2 2 p \<and> boardOf [] p = PLAYER_NONE)
   \<and> \<not> anyEmpty 2 2 (\<lambda>p. PLAYER_US)
   \<and> \<not> fst (stage4 2 2 3 (\<lambda>p. PLAYER_US) (5, 5))
   \<and> solveBoard 2 2 3 (\<lambda>p. PLAYER_US) (5, 5) = None"
proof -
  have a: "(1::int) \<le> 2" "(2::int) \<le> 15" by simp_all
  note t = solveBoard_finds_move[OF a a]
  have 1: "solveBoard 2 2 3 (boardOf []) (5, 5) = Some (Minimax, (0, 0))" by code_simp
  from t[of "boardOf []" 3 "(5, 5)"] anyEmpty_empty22
  have 2: "\<exists>s p. solveBoard 2 2 3 (boardOf []) (5, 5) = Some (s, p) \<and> (s = BasicSolve \<or> s = Minimax)
            \<and> inRegion 2 2 p \<and> boardOf [] p = PLAYER_NONE" by blast
  from t[of "\<lambda>p. PLAYER_US" 3 "(5, 5)"] not_anyEmpty_full22
  have 3: "\<not> fst (stage4 2 2 3 (\<lambda>p. PLAYER_US) (5, 5))" "solveBoard 2 2 3 (\<lambda>p. PLAYER_US) (5, 5) = None"
    by blast+
  from anyEmpty_empty22 1 2 not_anyEmpty_full22 3 show ?thesis by blast
qed

end
